theory Spec2Isabelle
  imports Complex_Main "HOL-Library.Word"
begin

section \<open>JavaScript values\<close>

text \<open>
  A JavaScript string is a sequence of 16-bit code units; \<open>length\<close>, \<open>indexOf\<close>,
  \<open>substring\<close> and the regular expressions of the source all count code units.
  \<open>js\<close> turns an Isabelle literal into such a string.
\<close>

type_synonym jsstring = "16 word list"

definition js :: "string \<Rightarrow> jsstring" where
  "js s = map of_char s"

text \<open>
  A number is an IEEE double, kept by the rational it denotes; \<open>NegZero\<close> is \<open>-0\<close>. No
  operation of the modelled code computes with numbers: they are parsed, tested for
  truthiness and passed on.
\<close>

datatype jsnum = Finite rat | NaN | PosInf | NegInf | NegZero

text \<open>
  The values that flow through the parser and the executor. Objects are property lists in
  creation order with distinct keys. Functions are not values of this type: the two places
  where the source expects a function (\<open>handler\<close>, \<open>validate\<close>) have the type \<open>callable\<close> below.
\<close>

datatype jsval =
    JUndefined
  | JNull
  | JBool bool
  | JNum jsnum
  | JStr jsstring
  | JArr "jsval list"
  | JObj "(jsstring \<times> jsval) list"

text \<open>\<^verbatim>\<open>typeof v\<close>\<close>

fun typeof :: "jsval \<Rightarrow> jsstring" where
  "typeof JUndefined = js ''undefined''"
| "typeof JNull = js ''object''"
| "typeof (JBool _) = js ''boolean''"
| "typeof (JNum _) = js ''number''"
| "typeof (JStr _) = js ''string''"
| "typeof (JArr _) = js ''object''"
| "typeof (JObj _) = js ''object''"

text \<open>\<^verbatim>\<open>ToBoolean\<close>: what \<^verbatim>\<open>!v\<close>, \<^verbatim>\<open>v || d\<close> and \<^verbatim>\<open>if (v)\<close> test.\<close>

fun truthy :: "jsval \<Rightarrow> bool" where
  "truthy JUndefined = False"
| "truthy JNull = False"
| "truthy (JBool b) = b"
| "truthy (JNum n) = (n \<noteq> Finite 0 \<and> n \<noteq> NegZero \<and> n \<noteq> NaN)"
| "truthy (JStr s) = (s \<noteq> [])"
| "truthy (JArr _) = True"
| "truthy (JObj _) = True"

text \<open>\<^verbatim>\<open>a || b\<close> on values.\<close>

definition or_else :: "jsval \<Rightarrow> jsval \<Rightarrow> jsval" where
  "or_else a b = (if truthy a then a else b)"

section \<open>Thrown values\<close>

text \<open>
  What user code (a handler, a validator) can throw or reject with: an \<^verbatim>\<open>Error\<close> object,
  kept by its message, or any other value (\<^verbatim>\<open>throw null\<close>, \<^verbatim>\<open>Promise.reject()\<close>).
\<close>

datatype uthrown = ErrorWith jsstring | Value jsval

text \<open>
  What the modelled code itself can throw. Each \<^verbatim>\<open>throw new Error(...)\<close> of executor.js is
  one constructor, carrying the value its message interpolates:
  \<^item> \<open>InvalidHandler n\<close>: \<^verbatim>\<open>Handler for action "n" must be a function\<close>
  \<^item> \<open>DuplicateAction n\<close>: \<^verbatim>\<open>Action n already registered\<close>
  \<^item> \<open>InvalidDecision\<close>: \<^verbatim>\<open>Invalid decision: missing action\<close>
  \<^item> \<open>UnknownAction a\<close>: \<^verbatim>\<open>Unknown action: a\<close>
  \<^item> \<open>InvalidParameters a\<close>: \<^verbatim>\<open>Invalid parameters for action: a\<close>

  \<open>TypeError\<close> is the engine's error for a property read on \<^verbatim>\<open>null\<close>/\<^verbatim>\<open>undefined\<close> and for
  a call of something that is not a function; \<open>SyntaxError\<close> is the failure of \<^verbatim>\<open>JSON.parse\<close>;
  \<open>Raised e\<close> is a value thrown by user code, passing through unchanged.
\<close>

datatype thrown =
    InvalidHandler jsstring
  | DuplicateAction jsstring
  | InvalidDecision
  | UnknownAction jsval
  | InvalidParameters jsval
  | TypeError
  | SyntaxError
  | Raised uthrown

text \<open>
  The property read \<^verbatim>\<open>v.k\<close>, for the keys the source reads (\<^verbatim>\<open>action\<close>, \<^verbatim>\<open>parameters\<close>,
  \<^verbatim>\<open>message\<close>), none of which is defined on a built-in prototype: \<^verbatim>\<open>null\<close> and
  \<^verbatim>\<open>undefined\<close> throw, an object yields its own property or \<^verbatim>\<open>undefined\<close>, every other
  value yields \<^verbatim>\<open>undefined\<close>.
\<close>

fun get_prop :: "jsval \<Rightarrow> jsstring \<Rightarrow> thrown + jsval" where
  "get_prop JUndefined k = Inl TypeError"
| "get_prop JNull k = Inl TypeError"
| "get_prop (JObj kvs) k = Inr (case map_of kvs k of Some v \<Rightarrow> v | None \<Rightarrow> JUndefined)"
| "get_prop _ k = Inr JUndefined"

text \<open>\<^verbatim>\<open>error.message\<close> in a catch clause that caught a value thrown by user code.\<close>

fun message_of :: "uthrown \<Rightarrow> thrown + jsval" where
  "message_of (ErrorWith m) = Inr (JStr m)"
| "message_of (Value v) = get_prop v (js ''message'')"

section \<open>The action executor (executor.js)\<close>

text \<open>
  A value in a position where the source expects a function: a function (synchronous for
  \<open>validate\<close>, settled by \<^verbatim>\<open>await\<close> for \<open>handler\<close>; \<open>Inl\<close> is a throw or a rejection), or
  some value that is not a function.
\<close>

datatype callable = Fn "jsval \<Rightarrow> uthrown + jsval" | NotFn jsval

fun truthy_callable :: "callable \<Rightarrow> bool" where
  "truthy_callable (Fn _) = True"
| "truthy_callable (NotFn v) = truthy v"

text \<open>A call \<^verbatim>\<open>f(x)\<close>.\<close>

fun call :: "callable \<Rightarrow> jsval \<Rightarrow> thrown + jsval" where
  "call (Fn f) x = (case f x of Inl e \<Rightarrow> Inl (Raised e) | Inr v \<Rightarrow> Inr v)"
| "call (NotFn _) x = Inl TypeError"

text \<open>The object stored in the registry by \<^verbatim>\<open>register\<close>.\<close>

record action_config =
  name :: jsstring
  handler :: "jsval \<Rightarrow> uthrown + jsval"
  description :: jsval
  parameters :: jsval
  examples :: jsval
  requiresConfirmation :: jsval
  validate :: callable

text \<open>
  The third argument of \<^verbatim>\<open>register\<close>. A field the caller did not supply is
  \<^verbatim>\<open>undefined\<close>; \<open>no_metadata\<close> is the default \<^verbatim>\<open>{}\<close>.
\<close>

record metadata =
  md_description :: jsval
  md_parameters :: jsval
  md_examples :: jsval
  md_requiresConfirmation :: jsval
  md_validate :: callable

definition no_metadata :: metadata where
  "no_metadata = \<lparr> md_description = JUndefined, md_parameters = JUndefined,
     md_examples = JUndefined, md_requiresConfirmation = JUndefined,
     md_validate = NotFn JUndefined \<rparr>"

text \<open>
  \<^verbatim>\<open>this.registry\<close>: a \<^verbatim>\<open>Map\<close> keyed by action name. A \<^verbatim>\<open>Map\<close> iterates in insertion
  order, so it is an association list; \<^verbatim>\<open>set\<close> on a present key keeps its place.
\<close>

type_synonym registry = "(jsstring \<times> action_config) list"

definition Map_has :: "registry \<Rightarrow> jsstring \<Rightarrow> bool" where
  "Map_has reg n = (map_of reg n \<noteq> None)"

fun Map_set :: "registry \<Rightarrow> jsstring \<Rightarrow> action_config \<Rightarrow> registry" where
  "Map_set [] n c = [(n, c)]"
| "Map_set ((k, v) # reg) n c = (if k = n then (k, c) # reg else (k, v) # Map_set reg n c)"

text \<open>
  \<^verbatim>\<open>this.registry.get(key)\<close> for a key of any type: the names are strings, and only a
  string is the same value as a string.
\<close>

fun Map_get :: "registry \<Rightarrow> jsval \<Rightarrow> action_config option" where
  "Map_get reg (JStr n) = map_of reg n"
| "Map_get reg _ = None"

fun Map_delete :: "registry \<Rightarrow> jsstring \<Rightarrow> bool \<times> registry" where
  "Map_delete reg n = (Map_has reg n, filter (\<lambda>(k, v). k \<noteq> n) reg)"

text \<open>
  \<^verbatim>\<open>register(name, handler, metadata = {})\<close>. The result pairs what the call does (throws, or
  returns \<^verbatim>\<open>this\<close>) with the registry afterwards.
\<close>

definition register ::
  "jsstring \<Rightarrow> callable \<Rightarrow> metadata \<Rightarrow> registry \<Rightarrow> (thrown + unit) \<times> registry" where
  "register n h md reg =
     (case h of
        NotFn _ \<Rightarrow> (Inl (InvalidHandler n), reg)
      | Fn f \<Rightarrow>
          if Map_has reg n then (Inl (DuplicateAction n), reg)
          else (Inr (),
            Map_set reg n
              \<lparr> name = n,
                handler = f,
                description = or_else (md_description md) (JStr (js ''Execute '' @ n)),
                parameters = or_else (md_parameters md) (JObj []),
                examples = or_else (md_examples md) (JArr []),
                requiresConfirmation = or_else (md_requiresConfirmation md) (JBool False),
                validate = (if truthy_callable (md_validate md) then md_validate md
                            else Fn (\<lambda>_. Inr (JBool True))) \<rparr>))"

text \<open>\<^verbatim>\<open>has\<close>, \<^verbatim>\<open>unregister\<close>, \<^verbatim>\<open>clear\<close>, \<^verbatim>\<open>size\<close>.\<close>

definition has :: "jsstring \<Rightarrow> registry \<Rightarrow> bool" where
  "has n reg = Map_has reg n"

definition unregister :: "jsstring \<Rightarrow> registry \<Rightarrow> bool \<times> registry" where
  "unregister n reg = Map_delete reg n"

definition clear :: "registry \<Rightarrow> registry" where
  "clear reg = []"

definition size_registry :: "registry \<Rightarrow> nat" where
  "size_registry reg = length reg"

text \<open>\<^verbatim>\<open>getAvailableActions()\<close> and \<^verbatim>\<open>list()\<close>, by the values they return.\<close>

definition getAvailableActions :: "registry \<Rightarrow> jsval" where
  "getAvailableActions reg =
     JArr (map (\<lambda>(n, config).
       JObj [(js ''action'', JStr n),
             (js ''description'', description config),
             (js ''parameters'', parameters config),
             (js ''examples'', examples config)]) reg)"

definition list_actions :: "registry \<Rightarrow> jsval" where
  "list_actions reg =
     JArr (map (\<lambda>(n, config).
       JObj [(js ''name'', JStr n),
             (js ''description'', description config)]) reg)"

text \<open>
  What \<^verbatim>\<open>execute\<close> does besides returning: the calls of the validator and of the handler
  of a registered action (by the action's name, with the argument), and
  \<^verbatim>\<open>console.warn\<close>.
\<close>

datatype event =
    ValidateCalled jsstring jsval
  | Warned jsstring
  | HandlerCalled jsstring jsval

text \<open>The events of a call: nothing is called when the value is not a function.\<close>

fun called :: "callable \<Rightarrow> event \<Rightarrow> event list" where
  "called (Fn _) ev = [ev]"
| "called (NotFn _) ev = []"

text \<open>
  The \<^verbatim>\<open>try\<close>/\<^verbatim>\<open>catch\<close> of \<^verbatim>\<open>execute\<close>: the awaited call of the handler, the envelope
  on success, and in the catch clause the read of \<^verbatim>\<open>error.message\<close>, which itself throws
  when the caught value is \<^verbatim>\<open>null\<close> or \<^verbatim>\<open>undefined\<close>.
\<close>

definition run_handler :: "action_config \<Rightarrow> jsval \<Rightarrow> jsval \<Rightarrow> thrown + jsval" where
  "run_handler action act params =
     (case handler action params of
        Inr result \<Rightarrow>
          Inr (JObj [(js ''success'', JBool True), (js ''action'', act),
                     (js ''result'', result)])
      | Inl error \<Rightarrow>
          (case message_of error of
             Inl e \<Rightarrow> Inl e
           | Inr m \<Rightarrow>
               Inr (JObj [(js ''success'', JBool False), (js ''action'', act),
                          (js ''error'', m)])))"

text \<open>The confirmation check: a warning, and nothing else.\<close>

definition confirmation_check :: "action_config \<Rightarrow> event list" where
  "confirmation_check action =
     (if truthy (requiresConfirmation action)
      then [Warned (js ''Action \"'' @ name action @ js ''\" requires confirmation'')]
      else [])"

text \<open>
  \<^verbatim>\<open>execute\<close> once the action is found: validation of \<^verbatim>\<open>decision.parameters || {}\<close>
  (outside the \<^verbatim>\<open>try\<close>), the confirmation check, the handler.
\<close>

definition dispatch :: "action_config \<Rightarrow> jsval \<Rightarrow> jsval \<Rightarrow> (thrown + jsval) \<times> event list" where
  "dispatch action act p =
     (let params = or_else p (JObj []);
          ev1 = called (validate action) (ValidateCalled (name action) params)
      in case call (validate action) params of
           Inl e \<Rightarrow> (Inl e, ev1)
         | Inr ok \<Rightarrow>
             (if \<not> truthy ok then (Inl (InvalidParameters act), ev1)
              else (run_handler action act params,
                    ev1 @ confirmation_check action
                        @ [HandlerCalled (name action) params])))"

text \<open>
  \<^verbatim>\<open>async execute(decision)\<close>: \<open>Inl\<close> is the rejection of the returned promise, \<open>Inr\<close> the
  value it resolves to, paired with the events in the order they happen.
\<close>

definition execute :: "jsval \<Rightarrow> registry \<Rightarrow> (thrown + jsval) \<times> event list" where
  "execute decision reg =
     (if \<not> truthy decision then (Inl InvalidDecision, [])
      else (case get_prop decision (js ''action'') of
        Inl e \<Rightarrow> (Inl e, [])
      | Inr act \<Rightarrow>
          (if \<not> truthy act then (Inl InvalidDecision, [])
           else (case Map_get reg act of
             None \<Rightarrow> (Inl (UnknownAction act), [])
           | Some action \<Rightarrow>
               (case get_prop decision (js ''parameters'') of
                  Inl e \<Rightarrow> (Inl e, [])
                | Inr p \<Rightarrow> dispatch action act p)))))"

text \<open>
  A caller registering one action after another, as \<^verbatim>\<open>ai.registerAction\<close> is called in
  the examples (or chained on the returned \<^verbatim>\<open>this\<close>): the first throw ends the sequence.
\<close>

fun register_all ::
  "(jsstring \<times> callable \<times> metadata) list \<Rightarrow> registry \<Rightarrow> (thrown + unit) \<times> registry" where
  "register_all [] reg = (Inr (), reg)"
| "register_all ((n, h, md) # rs) reg =
     (case register n h md reg of
        (Inl e, reg') \<Rightarrow> (Inl e, reg')
      | (Inr _, reg') \<Rightarrow> register_all rs reg')"

text \<open>
  The record \<^verbatim>\<open>list()\<close> is expected to hold for a registration, and the one
  \<^verbatim>\<open>getAvailableActions()\<close> is expected to hold: the supplied metadata or the default.
\<close>

definition listed :: "jsstring \<times> callable \<times> metadata \<Rightarrow> jsval" where
  "listed r = (case r of (n, h, md) \<Rightarrow>
     JObj [(js ''name'', JStr n),
           (js ''description'', or_else (md_description md) (JStr (js ''Execute '' @ n)))])"

definition available :: "jsstring \<times> callable \<times> metadata \<Rightarrow> jsval" where
  "available r = (case r of (n, h, md) \<Rightarrow>
     JObj [(js ''action'', JStr n),
           (js ''description'', or_else (md_description md) (JStr (js ''Execute '' @ n))),
           (js ''parameters'', or_else (md_parameters md) (JObj [])),
           (js ''examples'', or_else (md_examples md) (JArr []))])"

section \<open>The listings in a store\<close>

text \<open>
  \<^verbatim>\<open>list()\<close> and \<^verbatim>\<open>getAvailableActions()\<close> build a new array and push a new object per
  action; the fields of that object are read from the descriptor, so that a field which is
  an object (a \<^verbatim>\<open>parameters\<close> mapping, an \<^verbatim>\<open>examples\<close> array) is the descriptor's own
  object. Who can reach what by a write is a matter of which object is which, so here the
  objects have addresses: the store is the list of the cells allocated so far, an address
  is an index, and allocation appends. A field holds a value in place (\<open>Val\<close>: a string,
  a number, a boolean, \<^verbatim>\<open>null\<close>, \<^verbatim>\<open>undefined\<close>) or the address of an object (\<open>Ref\<close>).
\<close>

datatype hval = Val jsval | Ref nat

text \<open>
  The descriptor as \<^verbatim>\<open>register\<close> stores it: \<open>action_config\<close> with the fields as they are
  held, in place or by reference.
\<close>

record descriptor =
  d_name :: jsstring
  d_handler :: "jsval \<Rightarrow> uthrown + jsval"
  d_description :: hval
  d_parameters :: hval
  d_examples :: hval
  d_requiresConfirmation :: hval
  d_validate :: callable

text \<open>
  The cells: the registry's \<^verbatim>\<open>Map\<close> (the names with the addresses of their descriptors),
  a descriptor, an object or array handed to \<^verbatim>\<open>register\<close> or made by it as a default (by
  its content), and the arrays and records the two listing functions create.
\<close>

datatype cell =
    MapCell "(jsstring \<times> nat) list"
  | DescriptorCell descriptor
  | ValueCell jsval
  | ArrayCell "hval list"
  | ObjectCell "(jsstring \<times> hval) list"

type_synonym heap = "cell list"

text \<open>The cell at an address, if the address has been allocated.\<close>

definition cell_at :: "heap \<Rightarrow> nat \<Rightarrow> cell option" where
  "cell_at h a = (if a < length h then Some (h ! a) else None)"

text \<open>A new object: its address, and the store with it.\<close>

definition alloc :: "cell \<Rightarrow> heap \<Rightarrow> nat \<times> heap" where
  "alloc c h = (length h, h @ [c])"

text \<open>\<^verbatim>\<open>a.push(v)\<close> on the array at address \<open>a\<close>.\<close>

definition push :: "nat \<Rightarrow> hval \<Rightarrow> heap \<Rightarrow> heap" where
  "push a v h =
     (case cell_at h a of Some (ArrayCell xs) \<Rightarrow> h[a := ArrayCell (xs @ [v])] | _ \<Rightarrow> h)"

text \<open>What a field holds, read through the store: the value in place, or the object referred to.\<close>

fun resolve :: "heap \<Rightarrow> hval \<Rightarrow> jsval option" where
  "resolve h (Val v) = Some v"
| "resolve h (Ref a) = (case cell_at h a of Some (ValueCell v) \<Rightarrow> Some v | _ \<Rightarrow> None)"

text \<open>
  The registry's state read back from the store: the entries of the \<^verbatim>\<open>Map\<close> at address
  \<open>r\<close> in their order, each with its descriptor (\<open>descriptors_at\<close>), and each descriptor
  with its fields read through the store (\<open>registry_at\<close>). This is what \<^verbatim>\<open>execute\<close>,
  \<^verbatim>\<open>list\<close> and \<^verbatim>\<open>getAvailableActions\<close> see of the registry.
\<close>

definition config_of :: "heap \<Rightarrow> descriptor \<Rightarrow> action_config option" where
  "config_of h d =
     (case (resolve h (d_description d), resolve h (d_parameters d),
            resolve h (d_examples d), resolve h (d_requiresConfirmation d)) of
        (Some de, Some pa, Some ex, Some rc) \<Rightarrow>
          Some \<lparr> name = d_name d, handler = d_handler d, description = de,
                 parameters = pa, examples = ex, requiresConfirmation = rc,
                 validate = d_validate d \<rparr>
      | _ \<Rightarrow> None)"

definition descriptor_at :: "heap \<Rightarrow> jsstring \<times> nat \<Rightarrow> (jsstring \<times> descriptor) option" where
  "descriptor_at h e =
     (case cell_at h (snd e) of Some (DescriptorCell d) \<Rightarrow> Some (fst e, d) | _ \<Rightarrow> None)"

definition descriptors_at :: "heap \<Rightarrow> nat \<Rightarrow> (jsstring \<times> descriptor) list option" where
  "descriptors_at h r =
     (case cell_at h r of Some (MapCell es) \<Rightarrow> those (map (descriptor_at h) es) | _ \<Rightarrow> None)"

definition entry_of :: "heap \<Rightarrow> jsstring \<times> descriptor \<Rightarrow> (jsstring \<times> action_config) option" where
  "entry_of h e = map_option (Pair (fst e)) (config_of h (snd e))"

definition registry_at :: "heap \<Rightarrow> nat \<Rightarrow> registry option" where
  "registry_at h r =
     (case descriptors_at h r of Some ds \<Rightarrow> those (map (entry_of h) ds) | None \<Rightarrow> None)"

text \<open>
  \<^verbatim>\<open>register\<close> in the store. The third argument by its fields, each a value in place or
  the address of the caller's object; \<open>no_metadata_in\<close> is the default \<^verbatim>\<open>{}\<close>.
\<close>

record metadata_in =
  mi_description :: hval
  mi_parameters :: hval
  mi_examples :: hval
  mi_requiresConfirmation :: hval
  mi_validate :: callable

definition no_metadata_in :: metadata_in where
  "no_metadata_in = \<lparr> mi_description = Val JUndefined, mi_parameters = Val JUndefined,
     mi_examples = Val JUndefined, mi_requiresConfirmation = Val JUndefined,
     mi_validate = NotFn JUndefined \<rparr>"

text \<open>The same argument with its fields read through the store.\<close>

definition metadata_at :: "heap \<Rightarrow> metadata_in \<Rightarrow> metadata option" where
  "metadata_at h md =
     (case (resolve h (mi_description md), resolve h (mi_parameters md),
            resolve h (mi_examples md), resolve h (mi_requiresConfirmation md)) of
        (Some de, Some pa, Some ex, Some rc) \<Rightarrow>
          Some \<lparr> md_description = de, md_parameters = pa, md_examples = ex,
                 md_requiresConfirmation = rc, md_validate = mi_validate md \<rparr>
      | _ \<Rightarrow> None)"

text \<open>
  \<^verbatim>\<open>v || d\<close> where \<open>d\<close> is a string or a boolean (\<open>or_value\<close>), and where \<open>d\<close> is \<^verbatim>\<open>{}\<close> or
  \<^verbatim>\<open>[]\<close>, a new object (\<open>or_new\<close>). An object is truthy: a reference is kept as it is.
\<close>

definition or_value :: "hval \<Rightarrow> jsval \<Rightarrow> hval" where
  "or_value v d = (case v of Ref a \<Rightarrow> Ref a | Val j \<Rightarrow> Val (or_else j d))"

definition or_new :: "hval \<Rightarrow> jsval \<Rightarrow> heap \<Rightarrow> hval \<times> heap" where
  "or_new v d h =
     (case v of
        Ref a \<Rightarrow> (Ref a, h)
      | Val j \<Rightarrow>
          if truthy j then (Val j, h)
          else (case alloc (ValueCell d) h of (a, h') \<Rightarrow> (Ref a, h')))"

text \<open>\<^verbatim>\<open>Map.prototype.set\<close> on the entries of the registry's \<^verbatim>\<open>Map\<close>.\<close>

fun set_entry :: "(jsstring \<times> nat) list \<Rightarrow> jsstring \<Rightarrow> nat \<Rightarrow> (jsstring \<times> nat) list" where
  "set_entry [] n d = [(n, d)]"
| "set_entry ((k, v) # es) n d = (if k = n then (k, d) # es else (k, v) # set_entry es n d)"

text \<open>
  \<^verbatim>\<open>register(name, handler, metadata = {})\<close> on the registry at address \<open>r\<close>: the two checks,
  then the descriptor, whose \<^verbatim>\<open>parameters\<close> and \<^verbatim>\<open>examples\<close> are the caller's objects when
  the caller supplied them, and its entry in the \<^verbatim>\<open>Map\<close>.
\<close>

definition register_in ::
  "nat \<Rightarrow> jsstring \<Rightarrow> callable \<Rightarrow> metadata_in \<Rightarrow> heap \<Rightarrow> (thrown + unit) \<times> heap" where
  "register_in r n f md h =
     (case f of
        NotFn _ \<Rightarrow> (Inl (InvalidHandler n), h)
      | Fn g \<Rightarrow>
          (case cell_at h r of
             Some (MapCell es) \<Rightarrow>
               if map_of es n \<noteq> None then (Inl (DuplicateAction n), h)
               else
                 (case or_new (mi_parameters md) (JObj []) h of
                    (p, h1) \<Rightarrow>
                      (case or_new (mi_examples md) (JArr []) h1 of
                         (e, h2) \<Rightarrow>
                           (case alloc (DescriptorCell
                                   \<lparr> d_name = n,
                                     d_handler = g,
                                     d_description =
                                       or_value (mi_description md) (JStr (js ''Execute '' @ n)),
                                     d_parameters = p,
                                     d_examples = e,
                                     d_requiresConfirmation =
                                       or_value (mi_requiresConfirmation md) (JBool False),
                                     d_validate =
                                       (if truthy_callable (mi_validate md) then mi_validate md
                                        else Fn (\<lambda>_. Inr (JBool True))) \<rparr>) h2 of
                              (d, h3) \<Rightarrow> (Inr (), h3[r := MapCell (set_entry es n d)]))))
           | _ \<Rightarrow> (Inl TypeError, h)))"

text \<open>
  The two functions are one loop around two object literals:
  \<^verbatim>\<open>const actions = []; for (const [name, config] of this.registry) actions.push({...}); return actions\<close>.
  \<open>collect_loop\<close> is the \<^verbatim>\<open>for\<close> over the entries, \<open>collect\<close> the function around it; the
  result is the address of \<^verbatim>\<open>actions\<close> and the store afterwards.
\<close>

fun collect_loop ::
  "(jsstring \<Rightarrow> descriptor \<Rightarrow> (jsstring \<times> hval) list) \<Rightarrow> (jsstring \<times> nat) list \<Rightarrow> nat \<Rightarrow> heap \<Rightarrow> heap" where
  "collect_loop literal [] actions h = h"
| "collect_loop literal ((n, a) # es) actions h =
     (case cell_at h a of
        Some (DescriptorCell config) \<Rightarrow>
          (case alloc (ObjectCell (literal n config)) h of
             (record, h1) \<Rightarrow> collect_loop literal es actions (push actions (Ref record) h1))
      | _ \<Rightarrow> h)"

definition collect ::
  "(jsstring \<Rightarrow> descriptor \<Rightarrow> (jsstring \<times> hval) list) \<Rightarrow> nat \<Rightarrow> heap \<Rightarrow> nat \<times> heap" where
  "collect literal r h =
     (case alloc (ArrayCell []) h of
        (actions, h1) \<Rightarrow>
          (actions,
           collect_loop literal (case cell_at h r of Some (MapCell es) \<Rightarrow> es | _ \<Rightarrow> [])
             actions h1))"

text \<open>
  \<^verbatim>\<open>{ name, description: config.description }\<close> of \<^verbatim>\<open>list\<close> and
  \<^verbatim>\<open>{ action: name, description: config.description, parameters: config.parameters,
  examples: config.examples }\<close> of \<^verbatim>\<open>getAvailableActions\<close>: each field is what the
  descriptor's field is, the same reference where that is a reference.
\<close>

definition list_literal :: "jsstring \<Rightarrow> descriptor \<Rightarrow> (jsstring \<times> hval) list" where
  "list_literal n config =
     [(js ''name'', Val (JStr n)), (js ''description'', d_description config)]"

definition available_literal :: "jsstring \<Rightarrow> descriptor \<Rightarrow> (jsstring \<times> hval) list" where
  "available_literal n config =
     [(js ''action'', Val (JStr n)),
      (js ''description'', d_description config),
      (js ''parameters'', d_parameters config),
      (js ''examples'', d_examples config)]"

definition list_in :: "nat \<Rightarrow> heap \<Rightarrow> nat \<times> heap" where
  "list_in r h = collect list_literal r h"

definition getAvailableActions_in :: "nat \<Rightarrow> heap \<Rightarrow> nat \<times> heap" where
  "getAvailableActions_in r h = collect available_literal r h"

text \<open>What a caller sees in the array returned: its elements, each record by its fields.\<close>

definition read_field :: "heap \<Rightarrow> jsstring \<times> hval \<Rightarrow> jsstring \<times> jsval" where
  "read_field h kv = (fst kv, case resolve h (snd kv) of Some j \<Rightarrow> j | None \<Rightarrow> JUndefined)"

fun read_record :: "heap \<Rightarrow> hval \<Rightarrow> jsval" where
  "read_record h (Val v) = v"
| "read_record h (Ref a) =
     (case cell_at h a of
        Some (ObjectCell kvs) \<Rightarrow> JObj (map (read_field h) kvs)
      | _ \<Rightarrow> JUndefined)"

definition read_sequence :: "heap \<Rightarrow> nat \<Rightarrow> jsval" where
  "read_sequence h a =
     (case cell_at h a of Some (ArrayCell xs) \<Rightarrow> JArr (map (read_record h) xs) | _ \<Rightarrow> JUndefined)"

text \<open>
  An example. The store at the start holds the registry's empty \<^verbatim>\<open>Map\<close> at address 0 and
  two objects of the caller, a parameters mapping at address 1 and an examples array at
  address 2. \<^verbatim>\<open>b\<close> is registered without metadata, then \<^verbatim>\<open>a\<close> with a description and the
  caller's two objects. \<open>example_registrations\<close> are the same two calls with the arguments
  by their content.
\<close>

definition initial_store :: heap where
  "initial_store =
     [MapCell [],
      ValueCell (JObj [(js ''to'', JStr (js ''string''))]),
      ValueCell (JArr [JStr (js ''a!'')])]"

definition example_store :: heap where
  "example_store =
     snd (register_in 0 (js ''a'') (Fn (\<lambda>_. Inr JNull))
            (no_metadata_in\<lparr> mi_description := Val (JStr (js ''Alpha'')),
                               mi_parameters := Ref 1,
                               mi_examples := Ref 2 \<rparr>)
            (snd (register_in 0 (js ''b'') (Fn (\<lambda>_. Inr JNull)) no_metadata_in
                    initial_store)))"

definition example_registrations :: "(jsstring \<times> callable \<times> metadata) list" where
  "example_registrations =
     [(js ''b'', Fn (\<lambda>_. Inr JNull), no_metadata),
      (js ''a'', Fn (\<lambda>_. Inr JNull),
       no_metadata\<lparr> md_description := JStr (js ''Alpha''),
                     md_parameters := JObj [(js ''to'', JStr (js ''string''))],
                     md_examples := JArr [JStr (js ''a!'')] \<rparr>)]"

section \<open>String operations of the platform\<close>

text \<open>The class \<^verbatim>\<open>\s\<close> of a regular expression; \<^verbatim>\<open>trim\<close> removes the same code units.\<close>

definition is_space :: "16 word \<Rightarrow> bool" where
  "is_space c = (c \<in> {0x09, 0x0A, 0x0B, 0x0C, 0x0D, 0x20, 0xA0, 0x1680, 0x2028, 0x2029,
                      0x202F, 0x205F, 0x3000, 0xFEFF} \<or> (0x2000 \<le> c \<and> c \<le> 0x200A))"

definition trim :: "jsstring \<Rightarrow> jsstring" where
  "trim s = rev (dropWhile is_space (rev (dropWhile is_space s)))"

text \<open>
  A literal of a regular expression matched at the start of a string; the result is what
  follows the match. With the flag \<^verbatim>\<open>i\<close> a lower-case ASCII letter of the pattern also
  matches its upper-case form.
\<close>

definition matches_char :: "bool \<Rightarrow> 16 word \<Rightarrow> 16 word \<Rightarrow> bool" where
  "matches_char ignoreCase p c =
     (c = p \<or> (ignoreCase \<and> 0x61 \<le> p \<and> p \<le> 0x7A \<and> c = p - 0x20))"

fun match_literal :: "bool \<Rightarrow> jsstring \<Rightarrow> jsstring \<Rightarrow> jsstring option" where
  "match_literal ignoreCase [] s = Some s"
| "match_literal ignoreCase (p # ps) [] = None"
| "match_literal ignoreCase (p # ps) (c # cs) =
     (if matches_char ignoreCase p c then match_literal ignoreCase ps cs else None)"

text \<open>
  Three backticks, and the two patterns \<^verbatim>\<open>/```json\s*/gi\<close> and \<^verbatim>\<open>/```\s*/g\<close> matched at
  the start of a string.
\<close>

definition backticks :: jsstring where
  "backticks = [0x60, 0x60, 0x60]"

definition json_fence :: "jsstring \<Rightarrow> jsstring option" where
  "json_fence s = map_option (dropWhile is_space) (match_literal True (backticks @ js ''json'') s)"

definition bare_fence :: "jsstring \<Rightarrow> jsstring option" where
  "bare_fence s = map_option (dropWhile is_space) (match_literal False backticks s)"

text \<open>
  \<^verbatim>\<open>s.replace(pattern, '')\<close> for a pattern with the flag \<^verbatim>\<open>g\<close>, the pattern given by what
  it leaves of a string it matches at the start: every match is removed, from left to
  right, the search going on after the match. The two patterns of the source match three
  code units at least; a match that removed nothing would leave the code unit in place.
\<close>

function replace_global :: "(jsstring \<Rightarrow> jsstring option) \<Rightarrow> jsstring \<Rightarrow> jsstring" where
  "replace_global m [] = []"
| "replace_global m (c # cs) =
     (case m (c # cs) of
        None \<Rightarrow> c # replace_global m cs
      | Some rest \<Rightarrow>
          if length rest \<le> length cs then replace_global m rest
          else c # replace_global m cs)"
  by pat_completeness auto
termination
  by (relation "measure (\<lambda>(m, s). length s)") auto

text \<open>
  \<^verbatim>\<open>/^\{[\s\S]*\}$/\<close> and \<^verbatim>\<open>/^\[[\s\S]*\]$/\<close>: the string starts with the opening bracket and ends
  with the closing one, the two being different code units of it.
\<close>

definition matches_enclosed :: "16 word \<Rightarrow> 16 word \<Rightarrow> jsstring \<Rightarrow> bool" where
  "matches_enclosed opening closing s = (2 \<le> length s \<and> hd s = opening \<and> last s = closing)"

text \<open>\<^verbatim>\<open>s.indexOf(c)\<close> for a single code unit: the first index, or \<open>-1\<close>.\<close>

fun indexOf_from :: "jsstring \<Rightarrow> 16 word \<Rightarrow> int \<Rightarrow> int" where
  "indexOf_from [] c i = - 1"
| "indexOf_from (x # xs) c i = (if x = c then i else indexOf_from xs c (i + 1))"

definition indexOf :: "jsstring \<Rightarrow> 16 word \<Rightarrow> int" where
  "indexOf s c = indexOf_from s c 0"

text \<open>\<^verbatim>\<open>s.substring(a, b)\<close>, called by the source with \<open>a \<le> b \<le> length s\<close>.\<close>

definition substring :: "jsstring \<Rightarrow> nat \<Rightarrow> nat \<Rightarrow> jsstring" where
  "substring s a b = take (b - a) (drop a s)"

text \<open>The two replacements and the trim at the head of \<^verbatim>\<open>parseJSON\<close>.\<close>

definition clean :: "jsstring \<Rightarrow> jsstring" where
  "clean response = trim (replace_global bare_fence (replace_global json_fence response))"


section \<open>JSON.parse\<close>

text \<open>
  \<^verbatim>\<open>JSON.parse\<close> is the platform's, not the repository's. It is modelled by the grammar of
  ECMA-404: a lexer from code units to tokens, and a parser of the tokens. A numeral gives
  the double nearest to it, and an object has its members in the order in which the
  platform enumerates them.
\<close>

datatype token =
    LBrace | RBrace | LBracket | RBracket | Colon | Comma
  | TString jsstring | TNumber bool rat | TTrue | TFalse | TNull

text \<open>Digits, the four hexadecimal digits of \<^verbatim>\<open>\uXXXX\<close>, and the one-letter escapes.\<close>

definition is_digit :: "16 word \<Rightarrow> bool" where
  "is_digit c = (0x30 \<le> c \<and> c \<le> 0x39)"

definition digit_value :: "16 word \<Rightarrow> int" where
  "digit_value c = uint c - 0x30"

definition digits_value :: "jsstring \<Rightarrow> int" where
  "digits_value ds = foldl (\<lambda>a d. 10 * a + digit_value d) 0 ds"

definition hex_value :: "16 word \<Rightarrow> nat option" where
  "hex_value c =
     (if 0x30 \<le> c \<and> c \<le> 0x39 then Some (unat c - 0x30)
      else if 0x41 \<le> c \<and> c \<le> 0x46 then Some (unat c - 0x37)
      else if 0x61 \<le> c \<and> c \<le> 0x66 then Some (unat c - 0x57)
      else None)"

definition unicode_escape :: "jsstring \<Rightarrow> (16 word \<times> jsstring) option" where
  "unicode_escape s =
     (case s of
        h1 # h2 # h3 # h4 # rest \<Rightarrow>
          (case (hex_value h1, hex_value h2, hex_value h3, hex_value h4) of
             (Some a, Some b, Some c, Some d) \<Rightarrow>
               Some (of_nat (((a * 16 + b) * 16 + c) * 16 + d), rest)
           | _ \<Rightarrow> None)
      | _ \<Rightarrow> None)"

definition simple_escape :: "16 word \<Rightarrow> 16 word option" where
  "simple_escape e =
     (if e = 0x22 then Some 0x22
      else if e = 0x5C then Some 0x5C
      else if e = 0x2F then Some 0x2F
      else if e = 0x62 then Some 0x08
      else if e = 0x66 then Some 0x0C
      else if e = 0x6E then Some 0x0A
      else if e = 0x72 then Some 0x0D
      else if e = 0x74 then Some 0x09
      else None)"


definition prepend :: "16 word \<Rightarrow> (jsstring \<times> jsstring) option \<Rightarrow> (jsstring \<times> jsstring) option" where
  "prepend c r = (case r of None \<Rightarrow> None | Some (str, rest) \<Rightarrow> Some (c # str, rest))"

text \<open>
  The characters of a string literal after its opening quote, up to the closing quote:
  the string denoted, and what follows the literal.
\<close>

function lex_string :: "jsstring \<Rightarrow> (jsstring \<times> jsstring) option" where
  "lex_string [] = None"
| "lex_string (c # cs) =
     (if c = 0x22 then Some ([], cs)
      else if c = 0x5C then
        (case cs of
           [] \<Rightarrow> None
         | e # r \<Rightarrow>
             if e = 0x75 then
               (case r of
                  h1 # h2 # h3 # h4 # r' \<Rightarrow>
                    (case unicode_escape [h1, h2, h3, h4] of
                       None \<Rightarrow> None
                     | Some (u, _) \<Rightarrow> prepend u (lex_string r'))
                | _ \<Rightarrow> None)
             else
               (case simple_escape e of
                  None \<Rightarrow> None
                | Some x \<Rightarrow> prepend x (lex_string r)))
      else if c < 0x20 then None
      else prepend c (lex_string cs))"
  by pat_completeness auto
termination
  by (relation "measure length") auto


text \<open>
  A number: \<^verbatim>\<open>-? (0 | [1-9][0-9]*) (. [0-9]+)? ([eE] [+-]? [0-9]+)?\<close>, by its parts.
\<close>

definition lex_int :: "jsstring \<Rightarrow> (int \<times> jsstring) option" where
  "lex_int s =
     (case s of
        [] \<Rightarrow> None
      | d # r \<Rightarrow>
          if d = 0x30 then Some (0, r)
          else if is_digit d
          then Some (digits_value (d # takeWhile is_digit r), dropWhile is_digit r)
          else None)"

definition lex_frac :: "jsstring \<Rightarrow> (rat \<times> jsstring) option" where
  "lex_frac s =
     (case s of
        [] \<Rightarrow> Some (0, s)
      | d # r \<Rightarrow>
          if d = 0x2E then
            (let ds = takeWhile is_digit r
             in if ds = [] then None
                else Some (of_int (digits_value ds) / 10 ^ length ds, dropWhile is_digit r))
          else Some (0, s))"

definition lex_exp :: "jsstring \<Rightarrow> (int \<times> jsstring) option" where
  "lex_exp s =
     (case s of
        [] \<Rightarrow> Some (0, s)
      | e # r \<Rightarrow>
          if e = 0x65 \<or> e = 0x45 then
            (let negative = (case r of [] \<Rightarrow> False | g # _ \<Rightarrow> g = 0x2D);
                 r' = (case r of [] \<Rightarrow> r | g # t \<Rightarrow> if g = 0x2B \<or> g = 0x2D then t else r);
                 ds = takeWhile is_digit r'
             in if ds = [] then None
                else Some (if negative then - digits_value ds else digits_value ds,
                           dropWhile is_digit r'))
          else Some (0, s))"

definition scale :: "rat \<Rightarrow> int \<Rightarrow> rat" where
  "scale q e = (if 0 \<le> e then q * 10 ^ nat e else q / 10 ^ nat (- e))"

text \<open>The sign and the magnitude of the numeral, and what follows it.\<close>

definition lex_number :: "jsstring \<Rightarrow> ((bool \<times> rat) \<times> jsstring) option" where
  "lex_number s =
     (let negative = (case s of [] \<Rightarrow> False | c # _ \<Rightarrow> c = 0x2D);
          s1 = (if negative then tl s else s)
      in case lex_int s1 of
           None \<Rightarrow> None
         | Some (i, s2) \<Rightarrow>
             (case lex_frac s2 of
                None \<Rightarrow> None
              | Some (f, s3) \<Rightarrow>
                  (case lex_exp s3 of
                     None \<Rightarrow> None
                   | Some (e, s4) \<Rightarrow> Some ((negative, scale (of_int i + f) e), s4))))"


text \<open>
  The number a numeral denotes, as \<^verbatim>\<open>JSON.parse\<close> gives it: the double nearest to the
  mathematical value, ties to the even significand, below the normal range in steps of
  \<^verbatim>\<open>2^-1074\<close>, an infinity from \<^verbatim>\<open>2^1024\<close> on, and a zero that keeps the sign.
\<close>

function bit_length :: "int \<Rightarrow> nat" where
  "bit_length n = (if n \<le> 0 then 0 else Suc (bit_length (n div 2)))"
  by pat_completeness auto
termination
  by (relation "measure nat") auto

declare bit_length.simps [simp del]

definition pow2 :: "int \<Rightarrow> rat" where
  "pow2 k = (if 0 \<le> k then 2 ^ nat k else 1 / 2 ^ nat (- k))"

text \<open>For a positive \<open>q\<close>, the \<open>k\<close> with \<open>pow2 k \<le> q < pow2 (k + 1)\<close>.\<close>

definition binary_exponent :: "rat \<Rightarrow> int" where
  "binary_exponent q =
     (case quotient_of q of
        (a, b) \<Rightarrow>
          (let k = int (bit_length a) - int (bit_length b)
           in if pow2 k \<le> q then k else k - 1))"

definition round_half_even :: "rat \<Rightarrow> int" where
  "round_half_even x =
     (let f = \<lfloor>x\<rfloor>; r = x - of_int f
      in if r < 1 / 2 then f
         else if 1 / 2 < r then f + 1
         else if even f then f else f + 1)"

definition to_double :: "bool \<Rightarrow> rat \<Rightarrow> jsnum" where
  "to_double negative q =
     (if q = 0 then (if negative then NegZero else Finite 0)
      else
        (let ulp = pow2 (max (binary_exponent q) (- 1022) - 52);
             v = of_int (round_half_even (q / ulp)) * ulp
         in if 1024 \<le> binary_exponent v then (if negative then NegInf else PosInf)
            else if v = 0 then (if negative then NegZero else Finite 0)
            else Finite (if negative then - v else v)))"


text \<open>The literals \<^verbatim>\<open>true\<close>, \<^verbatim>\<open>false\<close> and \<^verbatim>\<open>null\<close>.\<close>

definition lex_literal :: "jsstring \<Rightarrow> (token \<times> jsstring) option" where
  "lex_literal s =
     (case match_literal False (js ''true'') s of
        Some rest \<Rightarrow> Some (TTrue, rest)
      | None \<Rightarrow>
          (case match_literal False (js ''false'') s of
             Some rest \<Rightarrow> Some (TFalse, rest)
           | None \<Rightarrow>
               (case match_literal False (js ''null'') s of
                  Some rest \<Rightarrow> Some (TNull, rest)
                | None \<Rightarrow> None)))"

definition emit :: "token \<Rightarrow> token list option \<Rightarrow> token list option" where
  "emit t r = map_option ((#) t) r"

text \<open>Every lexer of a token consumes something: the lexer below terminates.\<close>

lemma match_literal_length:
  "match_literal i p s = Some rest \<Longrightarrow> length rest + length p = length s"
  by (induction i p s rule: match_literal.induct) (auto split: if_splits)

lemma lex_string_length:
  "lex_string s = Some (str, rest) \<Longrightarrow> length rest < length s"
proof (induction s arbitrary: str rule: lex_string.induct)
  case 1
  then show ?case by simp
next
  case (2 c cs)
  then show ?case
    by (fastforce simp: prepend_def
          split: if_splits list.splits option.splits prod.splits)
qed

lemma lex_int_length: "lex_int s = Some (i, rest) \<Longrightarrow> length rest < length s"
  by (auto simp: lex_int_def less_Suc_eq_le length_dropWhile_le split: list.splits if_splits)

lemma lex_frac_length: "lex_frac s = Some (f, rest) \<Longrightarrow> length rest \<le> length s"
  by (auto simp: lex_frac_def Let_def le_SucI length_dropWhile_le split: list.splits if_splits)

lemma lex_exp_length: "lex_exp s = Some (e, rest) \<Longrightarrow> length rest \<le> length s"
  by (auto simp: lex_exp_def Let_def le_SucI length_dropWhile_le
        intro: le_trans [OF length_dropWhile_le] split: list.splits if_splits)

lemma lex_number_length: "lex_number s = Some (q, rest) \<Longrightarrow> length rest < length s"
proof -
  assume a: "lex_number s = Some (q, rest)"
  let ?s1 = "if (case s of [] \<Rightarrow> False | c # _ \<Rightarrow> c = 0x2D) then tl s else s"
  from a obtain i s2 f s3 e where
    1: "lex_int ?s1 = Some (i, s2)" and 2: "lex_frac s2 = Some (f, s3)"
    and 3: "lex_exp s3 = Some (e, rest)"
    by (auto simp: lex_number_def Let_def split: option.splits prod.splits)
  have "length ?s1 \<le> length s" by simp
  with lex_int_length [OF 1] lex_frac_length [OF 2] lex_exp_length [OF 3]
  show ?thesis by linarith
qed

lemma lex_literal_length: "lex_literal s = Some (t, rest) \<Longrightarrow> length rest < length s"
  by (auto simp: lex_literal_def js_def dest!: match_literal_length split: option.splits)

text \<open>
  The tokens of a text. White space is space, tab, line feed and carriage return; a code
  unit that starts no token makes the text invalid.
\<close>

function lex :: "jsstring \<Rightarrow> token list option" where
  "lex [] = Some []"
| "lex (c # cs) =
     (if c = 0x20 \<or> c = 0x09 \<or> c = 0x0A \<or> c = 0x0D then lex cs
      else if c = 0x7B then emit LBrace (lex cs)
      else if c = 0x7D then emit RBrace (lex cs)
      else if c = 0x5B then emit LBracket (lex cs)
      else if c = 0x5D then emit RBracket (lex cs)
      else if c = 0x3A then emit Colon (lex cs)
      else if c = 0x2C then emit Comma (lex cs)
      else if c = 0x22 then
        (case lex_string cs of
           None \<Rightarrow> None
         | Some (str, rest) \<Rightarrow> emit (TString str) (lex rest))
      else if c = 0x2D \<or> is_digit c then
        (case lex_number (c # cs) of
           None \<Rightarrow> None
         | Some (q, rest) \<Rightarrow> emit (TNumber (fst q) (snd q)) (lex rest))
      else
        (case lex_literal (c # cs) of
           None \<Rightarrow> None
         | Some (t, rest) \<Rightarrow> emit t (lex rest)))"
  by pat_completeness auto
termination lex
proof (relation "measure length")
qed (auto dest: lex_string_length lex_number_length lex_literal_length)


text \<open>
  The grammar of values over the tokens, as a machine with a stack of the arrays and
  objects that are open.
\<close>

datatype frame =
    InArray "jsval list"
  | InObject "(jsstring \<times> jsval) list"
  | InMember "(jsstring \<times> jsval) list" jsstring

datatype expect =
    AValue | AValueOrClose | AKey | AKeyOrClose | AColon | ACommaOrClose | Finished jsval

text \<open>
  The members of an object in the order the platform enumerates them: the keys that are
  array indices (the canonical numerals up to \<^verbatim>\<open>2^32 - 2\<close>) in ascending order, then the
  other keys in the order of their first occurrence. A key that occurs again keeps its
  place and takes the later value.
\<close>

definition array_index :: "jsstring \<Rightarrow> int option" where
  "array_index k =
     (case k of
        [] \<Rightarrow> None
      | d # ds \<Rightarrow>
          if \<not> list_all is_digit k then None
          else if d = 0x30 \<and> ds \<noteq> [] then None
          else if digits_value k \<le> 4294967294 then Some (digits_value k)
          else None)"

fun update_member :: "(jsstring \<times> jsval) list \<Rightarrow> jsstring \<Rightarrow> jsval \<Rightarrow> (jsstring \<times> jsval) list" where
  "update_member [] k v = []"
| "update_member ((k', v') # kvs) k v =
     (if k' = k then (k', v) # kvs else (k', v') # update_member kvs k v)"

fun insert_index :: "(jsstring \<times> jsval) list \<Rightarrow> int \<Rightarrow> jsstring \<Rightarrow> jsval \<Rightarrow> (jsstring \<times> jsval) list" where
  "insert_index [] i k v = [(k, v)]"
| "insert_index ((k', v') # kvs) i k v =
     (case array_index k' of
        None \<Rightarrow> (k, v) # (k', v') # kvs
      | Some j \<Rightarrow>
          if j < i then (k', v') # insert_index kvs i k v
          else (k, v) # (k', v') # kvs)"

definition put_member :: "(jsstring \<times> jsval) list \<Rightarrow> jsstring \<Rightarrow> jsval \<Rightarrow> (jsstring \<times> jsval) list" where
  "put_member kvs k v =
     (if map_of kvs k \<noteq> None then update_member kvs k v
      else case array_index k of
        None \<Rightarrow> kvs @ [(k, v)]
      | Some i \<Rightarrow> insert_index kvs i k v)"


text \<open>A complete value arrives: it is the result, an element, or the value of a member.\<close>

fun deliver :: "jsval \<Rightarrow> frame list \<Rightarrow> (frame list \<times> expect) option" where
  "deliver v [] = Some ([], Finished v)"
| "deliver v (InArray xs # st) = Some (InArray (xs @ [v]) # st, ACommaOrClose)"
| "deliver v (InMember kvs k # st) = Some (InObject (put_member kvs k v) # st, ACommaOrClose)"
| "deliver v (InObject kvs # st) = None"

fun scalar :: "token \<Rightarrow> jsval option" where
  "scalar (TString s) = Some (JStr s)"
| "scalar (TNumber negative q) = Some (JNum (to_double negative q))"
| "scalar TTrue = Some (JBool True)"
| "scalar TFalse = Some (JBool False)"
| "scalar TNull = Some JNull"
| "scalar _ = None"

fun close_array :: "frame list \<Rightarrow> (frame list \<times> expect) option" where
  "close_array (InArray xs # st) = deliver (JArr xs) st"
| "close_array _ = None"

fun close_object :: "frame list \<Rightarrow> (frame list \<times> expect) option" where
  "close_object (InObject kvs # st) = deliver (JObj kvs) st"
| "close_object _ = None"

fun open_member :: "jsstring \<Rightarrow> frame list \<Rightarrow> (frame list \<times> expect) option" where
  "open_member k (InObject kvs # st) = Some (InMember kvs k # st, AColon)"
| "open_member k _ = None"

fun after_comma :: "frame list \<Rightarrow> (frame list \<times> expect) option" where
  "after_comma (InArray xs # st) = Some (InArray xs # st, AValue)"
| "after_comma (InObject kvs # st) = Some (InObject kvs # st, AKey)"
| "after_comma _ = None"

fun start_value :: "token \<Rightarrow> frame list \<Rightarrow> (frame list \<times> expect) option" where
  "start_value LBracket st = Some (InArray [] # st, AValueOrClose)"
| "start_value LBrace st = Some (InObject [] # st, AKeyOrClose)"
| "start_value t st = (case scalar t of None \<Rightarrow> None | Some v \<Rightarrow> deliver v st)"

fun parse_step :: "frame list \<Rightarrow> expect \<Rightarrow> token \<Rightarrow> (frame list \<times> expect) option" where
  "parse_step st AValue t = start_value t st"
| "parse_step st AValueOrClose t = (if t = RBracket then close_array st else start_value t st)"
| "parse_step st AKey t = (case t of TString k \<Rightarrow> open_member k st | _ \<Rightarrow> None)"
| "parse_step st AKeyOrClose t =
     (case t of TString k \<Rightarrow> open_member k st | RBrace \<Rightarrow> close_object st | _ \<Rightarrow> None)"
| "parse_step st AColon t = (if t = Colon then Some (st, AValue) else None)"
| "parse_step st ACommaOrClose t =
     (case t of
        Comma \<Rightarrow> after_comma st
      | RBracket \<Rightarrow> close_array st
      | RBrace \<Rightarrow> close_object st
      | _ \<Rightarrow> None)"
| "parse_step st (Finished v) t = None"

fun parse_tokens :: "frame list \<Rightarrow> expect \<Rightarrow> token list \<Rightarrow> jsval option" where
  "parse_tokens st e [] = (case (st, e) of ([], Finished v) \<Rightarrow> Some v | _ \<Rightarrow> None)"
| "parse_tokens st e (t # ts) =
     (case parse_step st e t of
        None \<Rightarrow> None
      | Some (st', e') \<Rightarrow> parse_tokens st' e' ts)"

text \<open>\<^verbatim>\<open>JSON.parse(text)\<close> for a string: the value, or the throw of a \<^verbatim>\<open>SyntaxError\<close>.\<close>

definition JSON_parse :: "jsstring \<Rightarrow> thrown + jsval" where
  "JSON_parse text =
     (case lex text of
        None \<Rightarrow> Inl SyntaxError
      | Some ts \<Rightarrow>
          (case parse_tokens [] AValue ts of
             None \<Rightarrow> Inl SyntaxError
           | Some v \<Rightarrow> Inr v))"


section \<open>parseJSON (index.js)\<close>

text \<open>
  The two \<^verbatim>\<open>for\<close> loops of \<^verbatim>\<open>parseJSON\<close> differ only in the pair of brackets. One run of
  the loop from index \<open>i\<close> with the depth so far: \<open>Some r\<close> when the loop returns
  \<^verbatim>\<open>JSON.parse(cleaned.substring(start, i + 1))\<close> at the first index where the depth is
  zero, \<open>None\<close> when \<open>i\<close> reaches the length and the loop ends.
\<close>

function balance_loop ::
  "jsstring \<Rightarrow> 16 word \<Rightarrow> 16 word \<Rightarrow> nat \<Rightarrow> nat \<Rightarrow> int \<Rightarrow> (thrown + jsval) option" where
  "balance_loop cleaned opening closing start i depth =
     (if i < length cleaned then
        (let depth1 = (if cleaned ! i = opening then depth + 1 else depth);
             depth2 = (if cleaned ! i = closing then depth1 - 1 else depth1)
         in if depth2 = 0 then Some (JSON_parse (substring cleaned start (i + 1)))
            else balance_loop cleaned opening closing start (i + 1) depth2)
      else None)"
  by pat_completeness auto
termination
  by (relation "measure (\<lambda>(cleaned, opening, closing, start, i, depth). length cleaned - i)") auto

declare balance_loop.simps [simp del]

text \<open>The block \<^verbatim>\<open>if (isArray) { ... }\<close> and the block \<^verbatim>\<open>else { ... }\<close>.\<close>

definition array_branch :: "jsstring \<Rightarrow> int \<Rightarrow> (thrown + jsval) option" where
  "array_branch cleaned firstArray =
     balance_loop cleaned 0x5B 0x5D (nat firstArray) (nat firstArray) 0"

definition object_branch :: "jsstring \<Rightarrow> int \<Rightarrow> (thrown + jsval) option" where
  "object_branch cleaned firstObject =
     balance_loop cleaned 0x7B 0x7D (nat firstObject) (nat firstObject) 0"

text \<open>
  What follows the two whole-string matches: the first brackets, the choice of the
  branch, and \<^verbatim>\<open>JSON.parse(cleaned)\<close> when the loop of the branch ends without returning.
\<close>

definition scan_brackets :: "jsstring \<Rightarrow> thrown + jsval" where
  "scan_brackets cleaned =
     (let firstObject = indexOf cleaned 0x7B;
          firstArray = indexOf cleaned 0x5B
      in if firstObject = - 1 \<and> firstArray = - 1 then JSON_parse cleaned
         else
           (let isArray = (firstArray \<noteq> - 1 \<and> (firstObject = - 1 \<or> firstArray < firstObject))
            in case (if isArray then array_branch cleaned firstArray
                     else object_branch cleaned firstObject) of
                 Some r \<Rightarrow> r
               | None \<Rightarrow> JSON_parse cleaned))"

text \<open>
  The body of the \<^verbatim>\<open>try\<close>. A value that is neither an object nor a string has no
  \<^verbatim>\<open>replace\<close> method (and \<^verbatim>\<open>undefined\<close> no properties at all): the call throws a
  \<^verbatim>\<open>TypeError\<close>.
\<close>

definition parseJSON_body :: "jsval \<Rightarrow> thrown + jsval" where
  "parseJSON_body response =
     (if typeof response = js ''object'' then Inr response
      else case response of
        JStr text \<Rightarrow>
          (let cleaned = clean text
           in if matches_enclosed 0x7B 0x7D cleaned then JSON_parse cleaned
              else if matches_enclosed 0x5B 0x5D cleaned then JSON_parse cleaned
              else scan_brackets cleaned)
      | _ \<Rightarrow> Inl TypeError)"

text \<open>What the catch clause prints when \<^verbatim>\<open>this.debug\<close> is set.\<close>

datatype console = ParseError thrown | RawResponse jsval

definition failure_sentinel :: jsval where
  "failure_sentinel = JObj [(js ''error'', JStr (js ''Failed to parse response''))]"

text \<open>
  \<^verbatim>\<open>parseJSON(response)\<close> of an instance whose \<^verbatim>\<open>debug\<close> flag is given: what the call
  does (\<open>Inl\<close> a throw, \<open>Inr\<close> the value returned) and what it prints.
\<close>

definition parseJSON :: "bool \<Rightarrow> jsval \<Rightarrow> (thrown + jsval) \<times> console list" where
  "parseJSON debug response =
     (case parseJSON_body response of
        Inr v \<Rightarrow> (Inr v, [])
      | Inl error \<Rightarrow>
          (Inr failure_sentinel,
           if debug then [ParseError error, RawResponse response] else []))"


section \<open>The words of the specification, for comparison\<close>

text \<open>
  The definitions of this section are not taken from the source. They say in their own
  terms what the specification says of the scan (the first occurrence, the bracket chosen,
  the depth, the position where it returns to zero), and the source is compared with them.
\<close>

text \<open>The first occurrence of a code unit: the least index that holds it.\<close>

definition spec_first_index :: "jsstring \<Rightarrow> 16 word \<Rightarrow> nat option" where
  "spec_first_index s c = find (\<lambda>i. s ! i = c) [0..<length s]"

text \<open>
  ``Whichever occurs first in the text determines whether the intended value is an object
  or an array (if only one of the two brackets is present, use that one)'': the opening
  bracket chosen, its closing bracket and its index.
\<close>

definition spec_chosen_bracket :: "jsstring \<Rightarrow> (16 word \<times> 16 word \<times> nat) option" where
  "spec_chosen_bracket s =
     (case (spec_first_index s 0x7B, spec_first_index s 0x5B) of
        (None, None) \<Rightarrow> None
      | (Some ob, None) \<Rightarrow> Some (0x7B, 0x7D, ob)
      | (None, Some ar) \<Rightarrow> Some (0x5B, 0x5D, ar)
      | (Some ob, Some ar) \<Rightarrow>
          if ar < ob then Some (0x5B, 0x5D, ar) else Some (0x7B, 0x7D, ob))"

text \<open>
  The depth after the code units \<open>start, \<dots>, i - 1\<close>: the opening brackets among them
  less the closing ones.
\<close>

definition spec_depth :: "jsstring \<Rightarrow> 16 word \<Rightarrow> 16 word \<Rightarrow> nat \<Rightarrow> nat \<Rightarrow> int" where
  "spec_depth s opening closing start i =
     int (count_list (substring s start i) opening)
       - int (count_list (substring s start i) closing)"

text \<open>
  ``The position where depth returns to zero'': the least index from \<open>start\<close> on after
  which the depth is zero. It ends the minimal balanced substring that starts at \<open>start\<close>.
\<close>

definition spec_balanced_end :: "jsstring \<Rightarrow> 16 word \<Rightarrow> 16 word \<Rightarrow> nat \<Rightarrow> nat option" where
  "spec_balanced_end s opening closing start =
     find (\<lambda>j. spec_depth s opening closing start (j + 1) = 0) [start..<length s]"

section \<open>Properties of the executor\<close>

lemma Map_has_Map_set_absent:
  "\<not> Map_has reg n \<Longrightarrow> Map_set reg n c = reg @ [(n, c)]"
  by (induction reg) (auto simp: Map_has_def)

text \<open>
  C5. When the name is already registered, or when the handler is not a function,
  \<open>register\<close> throws and the registry afterwards is the registry before: \<open>has\<close> still
  holds of a registered name and the stored descriptor (handler and metadata) is the
  one that was there.
\<close>

theorem register_failure_leaves_registry:
  assumes "has n reg \<or> (\<exists>v. h = NotFn v)"
  shows "(\<exists>e. fst (register n h md reg) = Inl e)
       \<and> snd (register n h md reg) = reg
       \<and> has n (snd (register n h md reg)) = has n reg
       \<and> Map_get (snd (register n h md reg)) (JStr n) = Map_get reg (JStr n)"
  using assms by (cases h) (auto simp: register_def has_def)

theorem register_failure_leaves_registry_witness:
  "has (js ''a'') (snd (register (js ''a'') (Fn (\<lambda>_. Inr JNull)) no_metadata []))
   \<and> (\<exists>e. fst (register (js ''a'') (Fn (\<lambda>_. Inr (JBool True))) no_metadata
              (snd (register (js ''a'') (Fn (\<lambda>_. Inr JNull)) no_metadata []))) = Inl e)
   \<and> snd (register (js ''a'') (Fn (\<lambda>_. Inr (JBool True))) no_metadata
              (snd (register (js ''a'') (Fn (\<lambda>_. Inr JNull)) no_metadata [])))
       = snd (register (js ''a'') (Fn (\<lambda>_. Inr JNull)) no_metadata [])
   \<and> (\<exists>e. fst (register (js ''b'') (NotFn (JStr (js ''not a function''))) no_metadata
              (snd (register (js ''a'') (Fn (\<lambda>_. Inr JNull)) no_metadata []))) = Inl e)
   \<and> snd (register (js ''b'') (NotFn (JStr (js ''not a function''))) no_metadata
              (snd (register (js ''a'') (Fn (\<lambda>_. Inr JNull)) no_metadata [])))
       = snd (register (js ''a'') (Fn (\<lambda>_. Inr JNull)) no_metadata [])"
proof -
  let ?reg = "snd (register (js ''a'') (Fn (\<lambda>_. Inr JNull)) no_metadata [])"
  have h: "has (js ''a'') ?reg"
    by (simp add: has_def register_def Map_has_def)
  have n: "\<exists>v. NotFn (JStr (js ''not a function'')) = NotFn v" by blast
  from register_failure_leaves_registry [OF disjI1 [OF h]]
       register_failure_leaves_registry [OF disjI2 [OF n], of "js ''b''" no_metadata ?reg] h
  show ?thesis by blast
qed




text \<open>
  C10. When the validator of the action a decision names throws, \<open>execute\<close> rejects with
  the very value thrown: not with \<open>InvalidParameters\<close>, not with a failure envelope; the
  validator is the only thing that was called.
\<close>

theorem validator_exception_propagates:
  assumes "truthy decision"
    and "get_prop decision (js ''action'') = Inr act" and "truthy act"
    and "Map_get reg act = Some action"
    and "get_prop decision (js ''parameters'') = Inr p"
    and "validate action = Fn v"
    and "v (or_else p (JObj [])) = Inl e"
  shows "execute decision reg =
           (Inl (Raised e), [ValidateCalled (name action) (or_else p (JObj []))])"
  using assms by (simp add: execute_def dispatch_def Let_def)

theorem validator_exception_propagates_witness:
  "execute (JObj [(js ''action'', JStr (js ''a''))])
     (snd (register (js ''a'') (Fn (\<lambda>_. Inr JNull))
        (no_metadata\<lparr> md_validate := Fn (\<lambda>_. Inl (ErrorWith (js ''boom''))) \<rparr>) []))
   = (Inl (Raised (ErrorWith (js ''boom''))), [ValidateCalled (js ''a'') (JObj [])])"
  using validator_exception_propagates [of "JObj [(js ''action'', JStr (js ''a''))]" "JStr (js ''a'')"
     "snd (register (js ''a'') (Fn (\<lambda>_. Inr JNull))
        (no_metadata\<lparr> md_validate := Fn (\<lambda>_. Inl (ErrorWith (js ''boom''))) \<rparr>) [])"
      _ JUndefined "(\<lambda>_. Inl (ErrorWith (js ''boom'')))" "ErrorWith (js ''boom'')"]
  by (simp add: register_def Map_has_def no_metadata_def js_def or_else_def)

text \<open>
  C4 (as amended). For a registered action whose handler throws or rejects with a value
  whose \<^verbatim>\<open>message\<close> can be read (an \<^verbatim>\<open>Error\<close>, or anything but \<^verbatim>\<open>null\<close> and
  \<^verbatim>\<open>undefined\<close>), \<open>execute\<close> resolves to the failure envelope whenever the validator
  accepted the parameters. What rejects instead is the validator's refusal
  (\<open>InvalidParameters\<close>) or whatever the validator itself threw.
\<close>

theorem handler_failure_isolated:
  assumes "truthy decision"
    and "get_prop decision (js ''action'') = Inr act" and "truthy act"
    and "Map_get reg act = Some action"
    and "get_prop decision (js ''parameters'') = Inr p"
    and "handler action (or_else p (JObj [])) = Inl e"
    and "message_of e = Inr m"
  shows "fst (execute decision reg) =
           (case call (validate action) (or_else p (JObj [])) of
              Inl t \<Rightarrow> Inl t
            | Inr ok \<Rightarrow>
                if truthy ok
                then Inr (JObj [(js ''success'', JBool False), (js ''action'', act),
                                (js ''error'', m)])
                else Inl (InvalidParameters act))"
  using assms by (simp add: execute_def dispatch_def run_handler_def Let_def split: sum.splits)

theorem handler_failure_isolated_witness:
  "fst (execute (JObj [(js ''action'', JStr (js ''testAction''))])
     (snd (register (js ''testAction'') (Fn (\<lambda>_. Inl (ErrorWith (js ''Action failed''))))
        no_metadata [])))
   = Inr (JObj [(js ''success'', JBool False), (js ''action'', JStr (js ''testAction'')),
                (js ''error'', JStr (js ''Action failed''))])"
  using handler_failure_isolated [of "JObj [(js ''action'', JStr (js ''testAction''))]"
     "JStr (js ''testAction'')"
     "snd (register (js ''testAction'') (Fn (\<lambda>_. Inl (ErrorWith (js ''Action failed''))))
        no_metadata [])" _ JUndefined "ErrorWith (js ''Action failed'')" "JStr (js ''Action failed'')"]
  by (simp add: register_def Map_has_def no_metadata_def js_def or_else_def)

text \<open>
  C4 as stated fails: an exception of the validator is a hard failure of \<open>execute\<close> that is
  none of the three contract checks, here for an action whose handler would throw.
\<close>

theorem handler_failure_isolated_counterexample:
  "execute (JObj [(js ''action'', JStr (js ''a''))])
     (snd (register (js ''a'') (Fn (\<lambda>_. Inl (ErrorWith (js ''Action failed''))))
        (no_metadata\<lparr> md_validate := Fn (\<lambda>_. Inl (ErrorWith (js ''boom''))) \<rparr>) []))
   = (Inl (Raised (ErrorWith (js ''boom''))), [ValidateCalled (js ''a'') (JObj [])])"
  by (simp add: execute_def dispatch_def register_def Map_has_def no_metadata_def js_def or_else_def)

text \<open>
  A handler that rejects with \<^verbatim>\<open>undefined\<close> (\<^verbatim>\<open>Promise.reject()\<close>): the catch clause
  reads \<^verbatim>\<open>error.message\<close>, which throws, and \<open>execute\<close> rejects.
\<close>

theorem handler_rejects_with_undefined:
  "fst (execute (JObj [(js ''action'', JStr (js ''a''))])
     (snd (register (js ''a'') (Fn (\<lambda>_. Inl (Value JUndefined))) no_metadata [])))
   = Inl TypeError"
  by (simp add: execute_def dispatch_def run_handler_def register_def Map_has_def no_metadata_def js_def or_else_def Let_def)

text \<open>
  C8 (as amended). For an action registered under a non-empty name whose validator accepts
  the empty mapping, a decision with that action and no \<^verbatim>\<open>parameters\<close> calls the validator
  and then the handler, both with the empty mapping, and a handler that returns gives the
  success envelope with its return value.
\<close>

theorem execute_defaults_parameters:
  assumes "truthy decision"
    and "get_prop decision (js ''action'') = Inr act" and "truthy act"
    and "Map_get reg act = Some action"
    and "get_prop decision (js ''parameters'') = Inr JUndefined"
    and "call (validate action) (JObj []) = Inr ok" and "truthy ok"
  shows "snd (execute decision reg) =
           [ValidateCalled (name action) (JObj [])] @ confirmation_check action
             @ [HandlerCalled (name action) (JObj [])]
       \<and> (\<forall>result. handler action (JObj []) = Inr result \<longrightarrow>
            fst (execute decision reg) =
              Inr (JObj [(js ''success'', JBool True), (js ''action'', act),
                         (js ''result'', result)]))"
  using assms by (cases "validate action") (auto simp add: execute_def dispatch_def run_handler_def or_else_def Let_def split: sum.splits)

theorem execute_defaults_parameters_witness:
  "execute (JObj [(js ''action'', JStr (js ''testAction''))])
     (snd (register (js ''testAction'') (Fn (\<lambda>_. Inr (JObj [(js ''success'', JBool True)])))
        no_metadata []))
   = (Inr (JObj [(js ''success'', JBool True), (js ''action'', JStr (js ''testAction'')),
                (js ''result'', JObj [(js ''success'', JBool True)])]),
      [ValidateCalled (js ''testAction'') (JObj []), HandlerCalled (js ''testAction'') (JObj [])])"
  using execute_defaults_parameters [of "JObj [(js ''action'', JStr (js ''testAction''))]"
     "JStr (js ''testAction'')"
     "snd (register (js ''testAction'') (Fn (\<lambda>_. Inr (JObj [(js ''success'', JBool True)])))
        no_metadata [])" _ "JBool True"]
  by (simp add: register_def Map_has_def no_metadata_def js_def or_else_def confirmation_check_def prod_eq_iff)

text \<open>
  C8 as stated fails for an action whose validator refuses the empty mapping: the handler is
  never called.
\<close>

theorem execute_defaults_parameters_counterexample:
  "execute (JObj [(js ''action'', JStr (js ''a''))])
     (snd (register (js ''a'') (Fn (\<lambda>_. Inr JNull))
        (no_metadata\<lparr> md_validate :=
            Fn (\<lambda>p. Inr (JBool (get_prop p (js ''to'') \<noteq> Inr JUndefined))) \<rparr>) []))
   = (Inl (InvalidParameters (JStr (js ''a''))), [ValidateCalled (js ''a'') (JObj [])])"
  by (simp add: execute_def dispatch_def register_def Map_has_def no_metadata_def js_def or_else_def)

lemma register_success:
  assumes "register n h md reg = (Inr u, reg')"
  shows "\<exists>c. reg' = reg @ [(n, c)]
           \<and> description c = or_else (md_description md) (JStr (js ''Execute '' @ n))
           \<and> parameters c = or_else (md_parameters md) (JObj [])
           \<and> examples c = or_else (md_examples md) (JArr [])"
  using assms
  by (cases h) (auto simp: register_def Map_has_Map_set_absent split: if_splits)

lemma register_all_success:
  "register_all rs reg = (Inr u, reg') \<Longrightarrow>
     list_actions reg' = (case list_actions reg of JArr xs \<Rightarrow> JArr (xs @ map listed rs) | v \<Rightarrow> v)
   \<and> getAvailableActions reg' =
       (case getAvailableActions reg of JArr xs \<Rightarrow> JArr (xs @ map available rs) | v \<Rightarrow> v)"
proof (induction rs arbitrary: reg)
  case Nil
  then show ?case by (simp add: list_actions_def getAvailableActions_def)
next
  case (Cons r rs)
  obtain n h md where r: "r = (n, h, md)" by (cases r)
  from Cons.prems r obtain u1 reg1 where
    1: "register n h md reg = (Inr u1, reg1)" and 2: "register_all rs reg1 = (Inr u, reg')"
    by (auto split: prod.splits sum.splits)
  from register_success [OF 1] obtain c where c: "reg1 = reg @ [(n, c)]"
    "description c = or_else (md_description md) (JStr (js ''Execute '' @ n))"
    "parameters c = or_else (md_parameters md) (JObj [])"
    "examples c = or_else (md_examples md) (JArr [])" by blast
  from Cons.IH [OF 2] c r show ?case
    by (simp add: list_actions_def getAvailableActions_def listed_def available_def)
qed

section \<open>Properties of the listings\<close>

lemma those_map_nth:
  "those (map f xs) = Some ys \<Longrightarrow>
     length ys = length xs \<and> (\<forall>k<length xs. f (xs ! k) = Some (ys ! k))"
proof (induction xs arbitrary: ys)
  case Nil
  then show ?case by simp
next
  case (Cons x xs)
  from Cons.prems obtain y ys' where y: "f x = Some y"
    and r: "those (map f xs) = Some ys'" and ys: "ys = y # ys'"
    by (auto split: option.splits)
  from Cons.IH [OF r] y ys show ?case
    by (auto simp: nth_Cons split: nat.splits)
qed

lemma those_map_cong_Some:
  assumes "those (map f xs) = Some ys" "\<And>x y. f x = Some y \<Longrightarrow> g x = Some y"
  shows "those (map g xs) = Some ys"
  using assms(1)
proof (induction xs arbitrary: ys)
  case Nil
  then show ?case by simp
next
  case (Cons x xs)
  from Cons.prems obtain y ys' where y: "f x = Some y"
    and r: "those (map f xs) = Some ys'" and ys: "ys = y # ys'"
    by (auto split: option.splits)
  from assms(2) [OF y] Cons.IH [OF r] ys show ?case by simp
qed

lemma descriptor_at_frame:
  assumes "descriptor_at h e = Some x" "h ! actions = ArrayCell xs" "actions < length h"
  shows "descriptor_at ((h @ ys)[actions := ArrayCell zs]) e = Some x"
proof -
  from assms(1) have a: "snd e < length h" and c: "\<exists>c. h ! snd e = DescriptorCell c"
    by (auto simp: descriptor_at_def cell_at_def split: if_splits cell.splits)
  with assms(2) have "snd e \<noteq> actions" by auto
  with a assms(1) show ?thesis
    by (simp add: descriptor_at_def cell_at_def nth_append)
qed

lemma collect_loop_closed:
  assumes "actions < length h" "h ! actions = ArrayCell xs"
    and "those (map (descriptor_at h) es) = Some ds"
  shows "collect_loop literal es actions h =
           (h @ map (\<lambda>(n, d). ObjectCell (literal n d)) ds)
             [actions := ArrayCell (xs @ map Ref [length h..<length h + length ds])]"
  using assms
proof (induction es arbitrary: h xs ds)
  case Nil
  then show ?case using list_update_id [of h actions] by auto
next
  case (Cons e es)
  obtain n a where e: "e = (n, a)" by (cases e)
  from Cons.prems(3) obtain x ds' where
    dx: "descriptor_at h e = Some x"
    and r: "those (map (descriptor_at h) es) = Some ds'" and dsx: "ds = x # ds'"
    by (auto split: option.splits)
  from dx e obtain d where x: "x = (n, d)"
    by (auto simp: descriptor_at_def split: option.splits cell.splits)
  from dx e x have cell: "cell_at h a = Some (DescriptorCell d)"
    by (auto simp: descriptor_at_def split: option.splits cell.splits)
  from dsx x have ds: "ds = (n, d) # ds'" by simp
  let ?o = "ObjectCell (literal n d)"
  let ?xs' = "xs @ [Ref (length h)]"
  let ?h2 = "(h @ [?o])[actions := ArrayCell ?xs']"
  have step: "collect_loop literal (e # es) actions h = collect_loop literal es actions ?h2"
    using cell Cons.prems(1,2) e
    by (simp add: alloc_def push_def cell_at_def nth_append)
  have len: "length ?h2 = Suc (length h)" by simp
  have 1: "actions < length ?h2" using Cons.prems(1) by simp
  have 2: "?h2 ! actions = ArrayCell ?xs'" using Cons.prems(1) by simp
  have 3: "those (map (descriptor_at ?h2) es) = Some ds'"
    by (rule those_map_cong_Some [OF r]) (rule descriptor_at_frame [OF _ Cons.prems(2,1)])
  have upt: "[length h..<length h + length ((n, d) # ds')]
               = length h # [Suc (length h)..<Suc (length h) + length ds']"
  proof -
    have "[length h..<length h + Suc (length ds')]
            = length h # [Suc (length h)..<length h + Suc (length ds')]"
      by (rule upt_conv_Cons) simp
    then show ?thesis by (simp del: upt_Suc)
  qed
  have "collect_loop literal es actions ?h2 =
          (?h2 @ map (\<lambda>(n, d). ObjectCell (literal n d)) ds')
            [actions := ArrayCell (?xs' @ map Ref [length ?h2..<length ?h2 + length ds'])]"
    by (rule Cons.IH [OF 1 2 3])
  also have "\<dots> = (h @ map (\<lambda>(n, d). ObjectCell (literal n d)) ds)
            [actions := ArrayCell (xs @ map Ref [length h..<length h + length ds])]"
    using Cons.prems(1) unfolding len ds upt
    by (simp add: list_update_append del: upt_Suc)
  finally show ?case using step by simp
qed

lemma cell_at_frame:
  assumes "take (length h) h2 = h" "a < length h"
  shows "cell_at h2 a = cell_at h a"
proof -
  from assms(1) have "length h \<le> length h2"
    by (metis length_take min.cobounded1)
  moreover from assms have "h2 ! a = h ! a"
    by (metis nth_take)
  ultimately show ?thesis using assms(2) by (simp add: cell_at_def)
qed

lemma cell_at_Some_less: "cell_at h a = Some c \<Longrightarrow> a < length h"
  by (simp add: cell_at_def split: if_splits)

lemma descriptor_at_take:
  assumes "take (length h) h2 = h" "descriptor_at h e = Some x"
  shows "descriptor_at h2 e = Some x"
proof -
  from assms(2) have "snd e < length h"
    by (auto simp: descriptor_at_def dest: cell_at_Some_less split: option.splits)
  from cell_at_frame [OF assms(1) this] assms(2) show ?thesis
    by (simp add: descriptor_at_def)
qed

lemma resolve_take:
  assumes "take (length h) h2 = h" "resolve h v = Some j"
  shows "resolve h2 v = Some j"
proof (cases v)
  case (Val x)
  with assms(2) show ?thesis by simp
next
  case (Ref a)
  with assms(2) have "a < length h"
    by (auto dest: cell_at_Some_less split: option.splits)
  from cell_at_frame [OF assms(1) this] assms(2) Ref show ?thesis by simp
qed

lemma config_of_take:
  assumes "take (length h) h2 = h" "config_of h d = Some c"
  shows "config_of h2 d = Some c"
proof -
  from assms(2) obtain de pa ex rc where
    r: "resolve h (d_description d) = Some de" "resolve h (d_parameters d) = Some pa"
       "resolve h (d_examples d) = Some ex" "resolve h (d_requiresConfirmation d) = Some rc"
    by (auto simp: config_of_def split: option.splits)
  from r [THEN resolve_take [OF assms(1)]] r assms(2) show ?thesis
    by (simp add: config_of_def)
qed

lemma entry_of_take:
  assumes "take (length h) h2 = h" "entry_of h e = Some x"
  shows "entry_of h2 e = Some x"
proof -
  from assms(2) obtain c where c: "config_of h (snd e) = Some c" and x: "x = (fst e, c)"
    by (auto simp: entry_of_def)
  from config_of_take [OF assms(1) c] x show ?thesis by (simp add: entry_of_def)
qed

lemma descriptors_at_frame:
  assumes "descriptors_at h r = Some ds" "take (length h) h2 = h"
  shows "descriptors_at h2 r = Some ds"
proof -
  from assms(1) obtain es where m: "cell_at h r = Some (MapCell es)"
    and t: "those (map (descriptor_at h) es) = Some ds"
    by (auto simp: descriptors_at_def split: option.splits cell.splits)
  from cell_at_frame [OF assms(2) cell_at_Some_less [OF m]] m
    those_map_cong_Some [OF t descriptor_at_take [OF assms(2)]]
  show ?thesis by (simp add: descriptors_at_def)
qed

lemma registry_at_frame:
  assumes "registry_at h r = Some reg" "take (length h) h2 = h"
  shows "registry_at h2 r = Some reg"
proof -
  from assms(1) obtain ds where d: "descriptors_at h r = Some ds"
    and t: "those (map (entry_of h) ds) = Some reg"
    by (auto simp: registry_at_def split: option.splits)
  from descriptors_at_frame [OF d assms(2)]
    those_map_cong_Some [OF t entry_of_take [OF assms(2)]]
  show ?thesis by (simp add: registry_at_def)
qed

lemma collect_closed:
  assumes "descriptors_at h r = Some ds"
  shows "collect literal r h =
           (length h,
            (h @ ArrayCell [] # map (\<lambda>(n, d). ObjectCell (literal n d)) ds)
              [length h := ArrayCell (map Ref [Suc (length h)..<Suc (length h) + length ds])])"
proof -
  from assms obtain es where m: "cell_at h r = Some (MapCell es)"
    and t: "those (map (descriptor_at h) es) = Some ds"
    by (auto simp: descriptors_at_def split: option.splits cell.splits)
  let ?h1 = "h @ [ArrayCell []]"
  have 1: "length h < length ?h1" by simp
  have 2: "?h1 ! length h = ArrayCell []" by simp
  have "take (length h) ?h1 = h" by simp
  from those_map_cong_Some [OF t descriptor_at_take [OF this]]
  have 3: "those (map (descriptor_at ?h1) es) = Some ds" .
  from collect_loop_closed [OF 1 2 3, of literal] m show ?thesis
    by (simp add: collect_def alloc_def)
qed

lemma collect_fresh:
  assumes "descriptors_at h r = Some ds" "collect literal r h = (actions, h')"
  shows "actions = length h" and "take (length h) h' = h"
    and "length h' = Suc (length h) + length ds"
proof -
  from collect_closed [OF assms(1), of literal] assms(2)
  show "actions = length h" by simp
  from collect_closed [OF assms(1), of literal] assms(2)
  show "take (length h) h' = h" by auto
  from collect_closed [OF assms(1), of literal] assms(2)
  show "length h' = Suc (length h) + length ds" by auto
qed

lemma collect_records:
  assumes "descriptors_at h r = Some ds" "collect literal r h = (actions, h')"
    and "k < length ds"
  shows "cell_at h' actions = Some (ArrayCell (map Ref [Suc actions..<Suc actions + length ds]))"
    and "cell_at h' (Suc actions + k) = Some (ObjectCell (literal (fst (ds ! k)) (snd (ds ! k))))"
proof -
  let ?cells = "map (\<lambda>(n, d). ObjectCell (literal n d)) ds"
  let ?refs = "map Ref [Suc (length h)..<Suc (length h) + length ds]"
  from collect_closed [OF assms(1), of literal] assms(2)
  have a: "actions = length h"
    and h': "h' = (h @ ArrayCell [] # ?cells)[length h := ArrayCell ?refs]"
    by simp_all
  show "cell_at h' actions = Some (ArrayCell (map Ref [Suc actions..<Suc actions + length ds]))"
    unfolding a h' by (simp add: cell_at_def del: upt_Suc)
  from assms(3) show "cell_at h' (Suc actions + k)
      = Some (ObjectCell (literal (fst (ds ! k)) (snd (ds ! k))))"
    unfolding a h' by (simp add: cell_at_def nth_append case_prod_beta del: upt_Suc)
qed

lemma config_of_fields:
  assumes "config_of h d = Some c"
  shows "resolve h (d_description d) = Some (description c)"
    and "resolve h (d_parameters d) = Some (parameters c)"
    and "resolve h (d_examples d) = Some (examples c)"
  using assms by (auto simp: config_of_def split: option.splits)

lemma read_collected:
  assumes "descriptors_at h r = Some ds" "collect literal r h = (actions, h')"
  shows "read_sequence h' actions =
           JArr (map (\<lambda>e. JObj (map (read_field h') (literal (fst e) (snd e)))) ds)"
proof -
  let ?refs = "map Ref [Suc actions..<Suc actions + length ds]"
  have "map (read_record h') ?refs =
          map (\<lambda>e. JObj (map (read_field h') (literal (fst e) (snd e)))) ds"
  proof (rule nth_equalityI)
    show "length (map (read_record h') ?refs) =
            length (map (\<lambda>e. JObj (map (read_field h') (literal (fst e) (snd e)))) ds)"
      by (simp del: upt_Suc)
  next
    fix k assume "k < length (map (read_record h') ?refs)"
    then have k: "k < length ds" by (simp del: upt_Suc)
    from k have ref: "?refs ! k = Ref (Suc actions + k)" by (simp del: upt_Suc)
    from collect_records(2) [OF assms k] k ref
    show "map (read_record h') ?refs ! k =
            map (\<lambda>e. JObj (map (read_field h') (literal (fst e) (snd e)))) ds ! k"
      by (simp del: upt_Suc)
  qed
  moreover have "ds \<noteq> [] \<Longrightarrow> cell_at h' actions = Some (ArrayCell ?refs)"
    using collect_records(1) [OF assms, of 0] by simp
  moreover have "ds = [] \<Longrightarrow> cell_at h' actions = Some (ArrayCell ?refs)"
    using collect_closed [OF assms(1), of literal] assms(2) by (simp add: cell_at_def)
  ultimately show ?thesis by (cases "ds = []") (simp_all add: read_sequence_def del: upt_Suc)
qed

lemma registry_entries:
  assumes "registry_at h r = Some reg"
  obtains ds where "descriptors_at h r = Some ds" "length reg = length ds"
    "\<And>k. k < length ds \<Longrightarrow>
       fst (reg ! k) = fst (ds ! k) \<and> config_of h (snd (ds ! k)) = Some (snd (reg ! k))"
proof -
  from assms obtain ds where d: "descriptors_at h r = Some ds"
    and t: "those (map (entry_of h) ds) = Some reg"
    by (auto simp: registry_at_def split: option.splits)
  from those_map_nth [OF t] have len: "length reg = length ds"
    and e: "\<And>k. k < length ds \<Longrightarrow> entry_of h (ds ! k) = Some (reg ! k)" by auto
  have "fst (reg ! k) = fst (ds ! k) \<and> config_of h (snd (ds ! k)) = Some (snd (reg ! k))"
    if "k < length ds" for k
    using e [OF that] by (cases "reg ! k") (auto simp: entry_of_def)
  with d len show ?thesis using that by blast
qed

lemma read_listing:
  assumes "registry_at h r = Some reg"
    and "collect literal r h = (actions, h')"
    and fields: "\<And>n d c. config_of h' d = Some c \<Longrightarrow>
           JObj (map (read_field h') (literal n d)) = shape (n, c)"
  shows "read_sequence h' actions = JArr (map shape reg)"
proof -
  from registry_entries [OF assms(1)] obtain ds where
    d: "descriptors_at h r = Some ds" and len: "length reg = length ds"
    and e: "\<And>k. k < length ds \<Longrightarrow>
       fst (reg ! k) = fst (ds ! k) \<and> config_of h (snd (ds ! k)) = Some (snd (reg ! k))"
    by blast
  have frame: "take (length h) h' = h" by (rule collect_fresh(2) [OF d assms(2)])
  have "map (\<lambda>e. JObj (map (read_field h') (literal (fst e) (snd e)))) ds = map shape reg"
  proof (rule nth_equalityI)
    show "length (map (\<lambda>e. JObj (map (read_field h') (literal (fst e) (snd e)))) ds)
            = length (map shape reg)" using len by simp
  next
    fix k assume "k < length (map (\<lambda>e. JObj (map (read_field h') (literal (fst e) (snd e)))) ds)"
    then have k: "k < length ds" by simp
    from e [OF k] have n: "fst (reg ! k) = fst (ds ! k)"
      and c: "config_of h (snd (ds ! k)) = Some (snd (reg ! k))" by simp_all
    from fields [OF config_of_take [OF frame c], of "fst (ds ! k)"] n
    have "JObj (map (read_field h') (literal (fst (ds ! k)) (snd (ds ! k)))) = shape (reg ! k)"
      by (metis prod.collapse)
    with k len show "map (\<lambda>e. JObj (map (read_field h') (literal (fst e) (snd e)))) ds ! k
            = map shape reg ! k" by simp
  qed
  with read_collected [OF d assms(2)] show ?thesis by simp
qed

lemma list_in_reads:
  assumes "registry_at h r = Some reg" "list_in r h = (actions, h')"
  shows "read_sequence h' actions = list_actions reg"
proof -
  have "read_sequence h' actions =
          JArr (map (\<lambda>(n, config). JObj [(js ''name'', JStr n),
                                           (js ''description'', description config)]) reg)"
  proof (rule read_listing [OF assms(1) assms(2) [unfolded list_in_def]])
    fix n d c assume "config_of h' d = Some c"
    from config_of_fields [OF this]
    show "JObj (map (read_field h') (list_literal n d)) =
            (case (n, c) of (n, config) \<Rightarrow>
               JObj [(js ''name'', JStr n), (js ''description'', description config)])"
      by (simp add: list_literal_def read_field_def)
  qed
  then show ?thesis by (simp add: list_actions_def)
qed

lemma getAvailableActions_in_reads:
  assumes "registry_at h r = Some reg" "getAvailableActions_in r h = (actions, h')"
  shows "read_sequence h' actions = getAvailableActions reg"
proof -
  have "read_sequence h' actions =
          JArr (map (\<lambda>(n, config).
                  JObj [(js ''action'', JStr n),
                        (js ''description'', description config),
                        (js ''parameters'', parameters config),
                        (js ''examples'', examples config)]) reg)"
  proof (rule read_listing [OF assms(1) assms(2) [unfolded getAvailableActions_in_def]])
    fix n d c assume "config_of h' d = Some c"
    from config_of_fields [OF this]
    show "JObj (map (read_field h') (available_literal n d)) =
            (case (n, c) of (n, config) \<Rightarrow>
               JObj [(js ''action'', JStr n),
                     (js ''description'', description config),
                     (js ''parameters'', parameters config),
                     (js ''examples'', examples config)])"
      by (simp add: available_literal_def read_field_def)
  qed
  then show ?thesis by (simp add: getAvailableActions_def)
qed

lemma write_to_result_leaves_registry:
  assumes "registry_at h r = Some reg" "collect literal r h = (actions, h')"
  shows "registry_at (h'[actions + k := c]) r = Some reg"
proof (rule registry_at_frame [OF assms(1)])
  from registry_entries [OF assms(1)] obtain ds where "descriptors_at h r = Some ds" by blast
  from collect_fresh(1,2) [OF this assms(2)]
  show "take (length h) (h'[actions + k := c]) = h" by simp
qed

lemma those_map_snoc:
  "those (map f xs) = Some ys \<Longrightarrow> f x = Some y \<Longrightarrow> those (map f (xs @ [x])) = Some (ys @ [y])"
proof (induction xs arbitrary: ys)
  case Nil
  then show ?case by simp
next
  case (Cons a xs)
  from Cons.prems(1) obtain b ys' where b: "f a = Some b"
    and t: "those (map f xs) = Some ys'" and ys: "ys = b # ys'"
    by (auto split: option.splits)
  from Cons.IH [OF t Cons.prems(2)] b ys show ?case by simp
qed

lemma set_entry_absent: "map_of es n = None \<Longrightarrow> set_entry es n d = es @ [(n, d)]"
  by (induction es) (auto split: if_splits)

lemma resolve_truthy:
  assumes "resolve h (Ref a) = Some j" "\<And>a v. cell_at h a = Some (ValueCell v) \<Longrightarrow> truthy v"
  shows "truthy j"
  using assms by (auto split: option.splits cell.splits)

lemma or_value_resolve:
  assumes "resolve h v = Some j" "\<And>a v. cell_at h a = Some (ValueCell v) \<Longrightarrow> truthy v"
  shows "resolve h (or_value v d) = Some (or_else j d)"
proof (cases v)
  case (Val x)
  with assms(1) show ?thesis by (simp add: or_value_def)
next
  case (Ref a)
  with resolve_truthy [OF _ assms(2)] assms(1) show ?thesis
    by (simp add: or_value_def or_else_def)
qed

lemma or_new_resolve:
  assumes "resolve h v = Some j" "\<And>a v. cell_at h a = Some (ValueCell v) \<Longrightarrow> truthy v"
    and "or_new v d h = (p, h1)" "truthy d"
  shows "take (length h) h1 = h"
    and "resolve h1 p = Some (or_else j d)"
    and "\<And>a v. cell_at h1 a = Some (ValueCell v) \<Longrightarrow> truthy v"
proof -
  show "take (length h) h1 = h"
    using assms(3) by (auto simp: or_new_def alloc_def split: hval.splits if_splits)
  show "resolve h1 p = Some (or_else j d)"
  proof (cases v)
    case (Val x)
    with assms(1,3) show ?thesis
      by (auto simp: or_new_def alloc_def or_else_def cell_at_def split: if_splits)
  next
    case (Ref a)
    from assms(1) Ref have "truthy j"
      using resolve_truthy [of h a j] assms(2) by blast
    moreover from Ref assms(3) have "p = Ref a" "h1 = h"
      by (simp_all add: or_new_def)
    ultimately show ?thesis using assms(1) Ref by (simp add: or_else_def)
  qed
  fix a w assume c: "cell_at h1 a = Some (ValueCell w)"
  show "truthy w"
  proof (cases "h1 = h")
    case True
    with c assms(2) show ?thesis by simp
  next
    case False
    with assms(3) have h1: "h1 = h @ [ValueCell d]"
      by (auto simp: or_new_def alloc_def split: hval.splits if_splits)
    show ?thesis
    proof (cases "a < length h")
      case True
      with c h1 have "cell_at h a = Some (ValueCell w)"
        by (simp add: cell_at_def nth_append)
      then show ?thesis by (rule assms(2))
    next
      case False
      with c h1 assms(4) show ?thesis
        by (auto simp: cell_at_def nth_append split: if_splits)
    qed
  qed
qed

lemma descriptor_at_fst: "descriptor_at h e = Some x \<Longrightarrow> fst x = fst e"
  by (auto simp: descriptor_at_def split: option.splits cell.splits)

lemma entry_of_fst: "entry_of h e = Some x \<Longrightarrow> fst x = fst e"
  by (auto simp: entry_of_def)

lemma registry_keys:
  assumes "registry_at h r = Some reg" "cell_at h r = Some (MapCell es)"
  shows "map fst reg = map fst es"
proof -
  from assms obtain ds where d: "those (map (descriptor_at h) es) = Some ds"
    and t: "those (map (entry_of h) ds) = Some reg"
    by (auto simp: registry_at_def descriptors_at_def split: option.splits)
  from those_map_nth [OF d] have ld: "length ds = length es"
    and "\<And>k. k < length es \<Longrightarrow> descriptor_at h (es ! k) = Some (ds ! k)"
    by simp_all
  then have kd: "\<And>k. k < length es \<Longrightarrow> fst (ds ! k) = fst (es ! k)"
    using descriptor_at_fst by blast
  from those_map_nth [OF t] have lr: "length reg = length ds"
    and "\<And>k. k < length ds \<Longrightarrow> entry_of h (ds ! k) = Some (reg ! k)"
    by simp_all
  then have kr: "\<And>k. k < length ds \<Longrightarrow> fst (reg ! k) = fst (ds ! k)"
    using entry_of_fst by blast
  show ?thesis
    by (rule nth_equalityI) (simp_all add: ld lr kd kr)
qed

lemma descriptor_at_write_map:
  assumes "descriptor_at h e = Some x" "cell_at h r = Some (MapCell es)"
  shows "descriptor_at (h[r := c]) e = Some x"
proof -
  from assms have "snd e \<noteq> r"
    by (auto simp: descriptor_at_def split: option.splits cell.splits)
  with assms(1) show ?thesis
    by (auto simp: descriptor_at_def cell_at_def split: if_splits)
qed

lemma resolve_write_map:
  assumes "resolve h v = Some j" "cell_at h r = Some (MapCell es)"
  shows "resolve (h[r := c]) v = Some j"
proof (cases v)
  case (Val x)
  with assms(1) show ?thesis by simp
next
  case (Ref a)
  with assms have "a \<noteq> r" by (auto split: option.splits cell.splits)
  with assms(1) Ref show ?thesis by (auto simp: cell_at_def split: if_splits)
qed

lemma config_of_write_map:
  assumes "config_of h d = Some cf" "cell_at h r = Some (MapCell es)"
  shows "config_of (h[r := c]) d = Some cf"
proof -
  from assms(1) obtain de pa ex rc where
    r: "resolve h (d_description d) = Some de" "resolve h (d_parameters d) = Some pa"
       "resolve h (d_examples d) = Some ex" "resolve h (d_requiresConfirmation d) = Some rc"
    by (auto simp: config_of_def split: option.splits)
  from r [THEN resolve_write_map [OF _ assms(2)]] r assms(1) show ?thesis
    by (simp add: config_of_def)
qed

lemma entry_of_write_map:
  assumes "entry_of h e = Some x" "cell_at h r = Some (MapCell es)"
  shows "entry_of (h[r := c]) e = Some x"
proof -
  from assms(1) obtain cf where c: "config_of h (snd e) = Some cf" and x: "x = (fst e, cf)"
    by (auto simp: entry_of_def)
  from config_of_write_map [OF c assms(2)] x show ?thesis by (simp add: entry_of_def)
qed


lemma take_take_le: "take (length h) h1 = h \<Longrightarrow> take (length h1) h2 = h1 \<Longrightarrow> take (length h) h2 = h"
  by (metis length_take min.cobounded1 min_def take_take)

text \<open>
  \<^verbatim>\<open>register\<close> in the store and \<^verbatim>\<open>register\<close> on values agree: in a store whose object
  cells hold objects, the call throws the same or returns the same, and the registry read
  from the store afterwards is the registry that \<open>register\<close> returns for the metadata read
  from the store.
\<close>

lemma register_in_refines:
  assumes reg: "registry_at h r = Some reg"
    and md: "metadata_at h md = Some md'"
    and objects: "\<And>a v. cell_at h a = Some (ValueCell v) \<Longrightarrow> truthy v"
  shows "fst (register_in r n f md h) = fst (register n f md' reg)
       \<and> registry_at (snd (register_in r n f md h)) r = Some (snd (register n f md' reg))"
proof (cases f)
  case (NotFn x)
  with reg show ?thesis by (simp add: register_in_def register_def)
next
  case (Fn g)
  from reg obtain es ds where m: "cell_at h r = Some (MapCell es)"
    and d: "those (map (descriptor_at h) es) = Some ds"
    and t: "those (map (entry_of h) ds) = Some reg"
    by (auto simp: registry_at_def descriptors_at_def split: option.splits cell.splits)
  from registry_keys [OF reg m] have "fst ` set reg = fst ` set es"
    by (metis set_map)
  then have keys: "Map_has reg n \<longleftrightarrow> map_of es n \<noteq> None"
    by (simp add: Map_has_def map_of_eq_None_iff)
  show ?thesis
  proof (cases "Map_has reg n")
    case True
    with keys Fn m reg show ?thesis by (simp add: register_in_def register_def)
  next
    case False
    from md obtain de pa ex rc where
      de: "resolve h (mi_description md) = Some de"
      and pa: "resolve h (mi_parameters md) = Some pa"
      and ex: "resolve h (mi_examples md) = Some ex"
      and rc: "resolve h (mi_requiresConfirmation md) = Some rc"
      and md': "md' = \<lparr> md_description = de, md_parameters = pa, md_examples = ex,
                         md_requiresConfirmation = rc, md_validate = mi_validate md \<rparr>"
      by (auto simp: metadata_at_def split: option.splits)
    obtain p h1 where p: "or_new (mi_parameters md) (JObj []) h = (p, h1)"
      by (cases "or_new (mi_parameters md) (JObj []) h")
    obtain e h2 where e: "or_new (mi_examples md) (JArr []) h1 = (e, h2)"
      by (cases "or_new (mi_examples md) (JArr []) h1")
    have p1: "take (length h) h1 = h"
      and p2: "resolve h1 p = Some (or_else pa (JObj []))"
      and p3: "\<And>a v. cell_at h1 a = Some (ValueCell v) \<Longrightarrow> truthy v"
      using or_new_resolve [OF pa objects p] by simp_all
    have e1: "take (length h1) h2 = h1"
      and e2: "resolve h2 e = Some (or_else ex (JArr []))"
      using or_new_resolve [OF resolve_take [OF p1 ex] p3 e] by simp_all
    note t2 = take_take_le [OF p1 e1]
    define dd where "dd =
      \<lparr> d_name = n, d_handler = g,
        d_description = or_value (mi_description md) (JStr (js ''Execute '' @ n)),
        d_parameters = p, d_examples = e,
        d_requiresConfirmation = or_value (mi_requiresConfirmation md) (JBool False),
        d_validate = (if truthy_callable (mi_validate md) then mi_validate md
                      else Fn (\<lambda>_. Inr (JBool True))) \<rparr>"
    define c where "c =
      \<lparr> name = n, handler = g,
        description = or_else de (JStr (js ''Execute '' @ n)),
        parameters = or_else pa (JObj []),
        examples = or_else ex (JArr []),
        requiresConfirmation = or_else rc (JBool False),
        validate = (if truthy_callable (mi_validate md) then mi_validate md
                    else Fn (\<lambda>_. Inr (JBool True))) \<rparr>"
    define h3 where "h3 = h2 @ [DescriptorCell dd]"
    define h' where "h' = h3[r := MapCell (es @ [(n, length h2)])]"
    have t3: "take (length h2) h3 = h2" by (simp add: h3_def)
    have t03: "take (length h) h3 = h" by (rule take_take_le [OF t2 t3])
    have r: "r < length h" by (rule cell_at_Some_less [OF m])
    from t2 have len: "length h \<le> length h2" by (metis length_take min.cobounded1)
    from cell_at_frame [OF t03 r] m have m3: "cell_at h3 r = Some (MapCell es)" by simp
    from False keys have absent: "map_of es n = None" by simp
    have run: "register_in r n f md h = (Inr (), h')"
      using Fn m absent p e
      by (simp add: register_in_def alloc_def set_entry_absent dd_def h3_def h'_def)
    have run': "register n f md' reg = (Inr (), reg @ [(n, c)])"
      using Fn False
      by (simp add: register_def Map_has_Map_set_absent md' c_def)
    have old_d: "those (map (descriptor_at h') es) = Some ds"
    proof (rule those_map_cong_Some [OF d])
      fix x y assume "descriptor_at h x = Some y"
      from descriptor_at_write_map [OF descriptor_at_take [OF t03 this] m3]
      show "descriptor_at h' x = Some y" by (simp add: h'_def)
    qed
    have new_d: "descriptor_at h' (n, length h2) = Some (n, dd)"
      using r len by (simp add: descriptor_at_def cell_at_def h'_def h3_def)
    have map: "cell_at h' r = Some (MapCell (es @ [(n, length h2)]))"
      using r len by (simp add: cell_at_def h'_def h3_def)
    from those_map_snoc [OF old_d new_d] map
    have ds': "descriptors_at h' r = Some (ds @ [(n, dd)])"
      by (simp add: descriptors_at_def)
    have old_e: "those (map (entry_of h') ds) = Some reg"
    proof (rule those_map_cong_Some [OF t])
      fix x y assume "entry_of h x = Some y"
      from entry_of_write_map [OF entry_of_take [OF t03 this] m3]
      show "entry_of h' x = Some y" by (simp add: h'_def)
    qed
    have lift: "resolve h' v = Some j" if "resolve h2 v = Some j" for v j
      using resolve_write_map [OF resolve_take [OF t3 that] m3] by (simp add: h'_def)
    have f1: "resolve h' (d_description dd) = Some (description c)"
      using lift [OF resolve_take [OF t2 or_value_resolve [OF de objects]]]
      by (simp add: dd_def c_def)
    have f2: "resolve h' (d_parameters dd) = Some (parameters c)"
      using lift [OF resolve_take [OF e1 p2]] by (simp add: dd_def c_def)
    have f3: "resolve h' (d_examples dd) = Some (examples c)"
      using lift [OF e2] by (simp add: dd_def c_def)
    have f4: "resolve h' (d_requiresConfirmation dd) = Some (requiresConfirmation c)"
      using lift [OF resolve_take [OF t2 or_value_resolve [OF rc objects]]]
      by (simp add: dd_def c_def)
    have "config_of h' dd = Some c"
      unfolding config_of_def f1 f2 f3 f4 by (simp add: dd_def c_def)
    then have new_e: "entry_of h' (n, dd) = Some (n, c)" by (simp add: entry_of_def)
    from those_map_snoc [OF old_e new_e] ds'
    have "registry_at h' r = Some (reg @ [(n, c)])" by (simp add: registry_at_def)
    with run run' show ?thesis by simp
  qed
qed

text \<open>
  C9, as amended. For every sequence of successful registrations, \<^verbatim>\<open>list()\<close> returns the
  \<^verbatim>\<open>{name, description}\<close> pairs in insertion order, and \<^verbatim>\<open>getAvailableActions()\<close> returns
  records keyed by \<^verbatim>\<open>action\<close> with description, parameters and examples from the supplied
  metadata or the defaults (\<open>listed\<close>, \<open>available\<close>); the two functions in the store return
  what is read as these values. Both return a new array of new records: the array is at an
  address that was not in use, the cells that existed are as they were, and whatever is
  written afterwards to the array or to one of its records (the cells from the array's
  address on), the registry reads as before. The records are shallow: a record holds the
  description, and a record of \<^verbatim>\<open>getAvailableActions()\<close> the parameters and the examples,
  as the descriptor holds them, so that a parameters mapping or an examples array reached
  through a record is the descriptor's own object.
\<close>

theorem listings_fresh_records:
  assumes "register_all rs [] = (Inr (), reg)"
    and "registry_at h r = Some reg"
    and "descriptors_at h r = Some ds"
  shows "list_actions reg = JArr (map listed rs)
       \<and> getAvailableActions reg = JArr (map available rs)
       \<and> read_sequence (snd (list_in r h)) (fst (list_in r h)) = list_actions reg
       \<and> read_sequence (snd (getAvailableActions_in r h)) (fst (getAvailableActions_in r h))
           = getAvailableActions reg
       \<and> fst (list_in r h) = length h \<and> take (length h) (snd (list_in r h)) = h
       \<and> fst (getAvailableActions_in r h) = length h
       \<and> take (length h) (snd (getAvailableActions_in r h)) = h
       \<and> (\<forall>k c. registry_at ((snd (list_in r h))[fst (list_in r h) + k := c]) r = Some reg)
       \<and> (\<forall>k c. registry_at
               ((snd (getAvailableActions_in r h))[fst (getAvailableActions_in r h) + k := c]) r
             = Some reg)
       \<and> (\<forall>k<length ds.
             cell_at (snd (list_in r h)) (Suc (fst (list_in r h)) + k)
             = Some (ObjectCell
                 [(js ''name'', Val (JStr (fst (ds ! k)))),
                  (js ''description'', d_description (snd (ds ! k)))]))
       \<and> (\<forall>k<length ds.
             cell_at (snd (getAvailableActions_in r h))
               (Suc (fst (getAvailableActions_in r h)) + k)
             = Some (ObjectCell
                 [(js ''action'', Val (JStr (fst (ds ! k)))),
                  (js ''description'', d_description (snd (ds ! k))),
                  (js ''parameters'', d_parameters (snd (ds ! k))),
                  (js ''examples'', d_examples (snd (ds ! k)))]))"
proof -
  from register_all_success [OF assms(1)]
  have vals: "list_actions reg = JArr (map listed rs)"
    "getAvailableActions reg = JArr (map available rs)"
    by (simp_all add: list_actions_def getAvailableActions_def)
  obtain a1 h1 where l: "list_in r h = (a1, h1)" by (cases "list_in r h")
  obtain a2 h2 where g: "getAvailableActions_in r h = (a2, h2)"
    by (cases "getAvailableActions_in r h")
  note lc = l [unfolded list_in_def]
  note gc = g [unfolded getAvailableActions_in_def]
  have shared: "\<forall>k<length ds. cell_at h2 (Suc a2 + k)
             = Some (ObjectCell
                 [(js ''action'', Val (JStr (fst (ds ! k)))),
                  (js ''description'', d_description (snd (ds ! k))),
                  (js ''parameters'', d_parameters (snd (ds ! k))),
                  (js ''examples'', d_examples (snd (ds ! k)))])"
    using collect_records(2) [OF assms(3) gc] by (simp add: available_literal_def)
  have shared_list: "\<forall>k<length ds. cell_at h1 (Suc a1 + k)
             = Some (ObjectCell
                 [(js ''name'', Val (JStr (fst (ds ! k)))),
                  (js ''description'', d_description (snd (ds ! k)))])"
    using collect_records(2) [OF assms(3) lc] by (simp add: list_literal_def)
  have w1: "\<forall>k c. registry_at (h1[a1 + k := c]) r = Some reg"
    using write_to_result_leaves_registry [OF assms(2) lc] by blast
  have w2: "\<forall>k c. registry_at (h2[a2 + k := c]) r = Some reg"
    using write_to_result_leaves_registry [OF assms(2) gc] by blast
  from list_in_reads [OF assms(2) l] getAvailableActions_in_reads [OF assms(2) g]
    collect_fresh(1,2) [OF assms(3) lc] collect_fresh(1,2) [OF assms(3) gc]
    vals l g shared shared_list w1 w2
  show ?thesis by simp
qed

lemma example_store_cells:
  "example_store =
     [MapCell [(js ''b'', 5), (js ''a'', 6)],
      ValueCell (JObj [(js ''to'', JStr (js ''string''))]),
      ValueCell (JArr [JStr (js ''a!'')]),
      ValueCell (JObj []),
      ValueCell (JArr []),
      DescriptorCell
        \<lparr> d_name = js ''b'', d_handler = (\<lambda>_. Inr JNull),
          d_description = Val (JStr (js ''Execute b'')),
          d_parameters = Ref 3, d_examples = Ref 4,
          d_requiresConfirmation = Val (JBool False),
          d_validate = Fn (\<lambda>_. Inr (JBool True)) \<rparr>,
      DescriptorCell
        \<lparr> d_name = js ''a'', d_handler = (\<lambda>_. Inr JNull),
          d_description = Val (JStr (js ''Alpha'')),
          d_parameters = Ref 1, d_examples = Ref 2,
          d_requiresConfirmation = Val (JBool False),
          d_validate = Fn (\<lambda>_. Inr (JBool True)) \<rparr>]"
  by (simp add: example_store_def initial_store_def register_in_def cell_at_def alloc_def
        or_new_def or_value_def or_else_def no_metadata_in_def js_def)

lemma example_registry:
  "register_all example_registrations [] = (Inr (), snd (register_all example_registrations []))"
  by (simp add: example_registrations_def register_def Map_has_def js_def)

lemma example_registry_at:
  "registry_at example_store 0 = Some (snd (register_all example_registrations []))"
  unfolding example_store_cells
  by (simp add: example_registrations_def register_def Map_has_def js_def
        registry_at_def descriptors_at_def descriptor_at_def entry_of_def config_of_def
        cell_at_def no_metadata_def or_else_def)

lemma example_descriptors_at:
  "descriptors_at example_store 0 =
     Some [(js ''b'', (case example_store ! 5 of DescriptorCell d \<Rightarrow> d)),
           (js ''a'', (case example_store ! 6 of DescriptorCell d \<Rightarrow> d))]"
  unfolding example_store_cells
  by (simp add: descriptors_at_def descriptor_at_def cell_at_def)

text \<open>
  The example: \<^verbatim>\<open>b\<close> and \<^verbatim>\<open>a\<close> are listed in this order, the arrays are at the new address
  7, the registry reads the same after the array of \<^verbatim>\<open>list()\<close> is emptied and after the
  record of \<^verbatim>\<open>a\<close> is replaced, and that record refers to the caller's objects at the
  addresses 1 and 2.
\<close>

theorem listings_fresh_records_witness:
  "register_all example_registrations [] = (Inr (), snd (register_all example_registrations []))
   \<and> registry_at example_store 0 = Some (snd (register_all example_registrations []))
   \<and> read_sequence (snd (list_in 0 example_store)) (fst (list_in 0 example_store)) =
       JArr [JObj [(js ''name'', JStr (js ''b'')), (js ''description'', JStr (js ''Execute b''))],
             JObj [(js ''name'', JStr (js ''a'')), (js ''description'', JStr (js ''Alpha''))]]
   \<and> read_sequence (snd (getAvailableActions_in 0 example_store))
         (fst (getAvailableActions_in 0 example_store)) =
       JArr [JObj [(js ''action'', JStr (js ''b'')), (js ''description'', JStr (js ''Execute b'')),
                   (js ''parameters'', JObj []), (js ''examples'', JArr [])],
             JObj [(js ''action'', JStr (js ''a'')), (js ''description'', JStr (js ''Alpha'')),
                   (js ''parameters'', JObj [(js ''to'', JStr (js ''string''))]),
                   (js ''examples'', JArr [JStr (js ''a!'')])]]
   \<and> fst (list_in 0 example_store) = 7
   \<and> fst (getAvailableActions_in 0 example_store) = 7
   \<and> registry_at ((snd (list_in 0 example_store))[7 := ArrayCell []]) 0
       = Some (snd (register_all example_registrations []))
   \<and> registry_at ((snd (getAvailableActions_in 0 example_store))
         [9 := ObjectCell [(js ''action'', Val (JStr (js ''z'')))]]) 0
       = Some (snd (register_all example_registrations []))
   \<and> cell_at (snd (list_in 0 example_store)) 9 =
       Some (ObjectCell [(js ''name'', Val (JStr (js ''a''))),
                         (js ''description'', Val (JStr (js ''Alpha'')))])
   \<and> cell_at (snd (getAvailableActions_in 0 example_store)) 9 =
       Some (ObjectCell [(js ''action'', Val (JStr (js ''a''))),
                         (js ''description'', Val (JStr (js ''Alpha''))),
                         (js ''parameters'', Ref 1),
                         (js ''examples'', Ref 2)])"
proof -
  let ?reg = "snd (register_all example_registrations [])"
  let ?l = "list_in 0 example_store"
  let ?g = "getAvailableActions_in 0 example_store"
  have 3: "map listed example_registrations =
       [JObj [(js ''name'', JStr (js ''b'')), (js ''description'', JStr (js ''Execute b''))],
        JObj [(js ''name'', JStr (js ''a'')), (js ''description'', JStr (js ''Alpha''))]]"
    by (simp add: example_registrations_def listed_def no_metadata_def or_else_def js_def)
  have 4: "map available example_registrations =
       [JObj [(js ''action'', JStr (js ''b'')), (js ''description'', JStr (js ''Execute b'')),
              (js ''parameters'', JObj []), (js ''examples'', JArr [])],
        JObj [(js ''action'', JStr (js ''a'')), (js ''description'', JStr (js ''Alpha'')),
              (js ''parameters'', JObj [(js ''to'', JStr (js ''string''))]),
              (js ''examples'', JArr [JStr (js ''a!'')])]]"
    by (simp add: example_registrations_def available_def no_metadata_def or_else_def js_def)
  have 5: "length example_store = 7" unfolding example_store_cells by simp
  note t = listings_fresh_records
             [OF example_registry example_registry_at example_descriptors_at]
  from t have l1: "list_actions ?reg = JArr (map listed example_registrations)" by blast
  from t have g1: "getAvailableActions ?reg = JArr (map available example_registrations)"
    by blast
  from t have l2: "read_sequence (snd ?l) (fst ?l) = list_actions ?reg" by blast
  from t have g2: "read_sequence (snd ?g) (fst ?g) = getAvailableActions ?reg" by blast
  from t have l3: "fst ?l = length example_store" by blast
  from t have g3: "fst ?g = length example_store" by blast
  from t have "\<forall>k c. registry_at ((snd ?l)[fst ?l + k := c]) 0 = Some ?reg" by blast
  then have "registry_at ((snd ?l)[fst ?l + 0 := ArrayCell []]) 0 = Some ?reg" by blast
  then have l4: "registry_at ((snd ?l)[7 := ArrayCell []]) 0 = Some ?reg"
    by (simp add: l3 5)
  from t have "\<forall>k c. registry_at ((snd ?g)[fst ?g + k := c]) 0 = Some ?reg" by blast
  then have "registry_at ((snd ?g)[fst ?g + 2 := ObjectCell [(js ''action'', Val (JStr (js ''z'')))]]) 0
      = Some ?reg" by blast
  then have g4: "registry_at ((snd ?g)[9 := ObjectCell [(js ''action'', Val (JStr (js ''z'')))]]) 0
      = Some ?reg"
    by (simp add: g3 5)
  let ?ds = "[(js ''b'', (case example_store ! 5 of DescriptorCell d \<Rightarrow> d)),
              (js ''a'', (case example_store ! 6 of DescriptorCell d \<Rightarrow> d))]"
  from t have "\<forall>k<length ?ds. cell_at (snd ?g) (Suc (fst ?g) + k) =
      Some (ObjectCell
        [(js ''action'', Val (JStr (fst (?ds ! k)))),
         (js ''description'', d_description (snd (?ds ! k))),
         (js ''parameters'', d_parameters (snd (?ds ! k))),
         (js ''examples'', d_examples (snd (?ds ! k)))])"
    by blast
  then have "1 < length ?ds \<longrightarrow> cell_at (snd ?g) (Suc (fst ?g) + 1) =
      Some (ObjectCell
        [(js ''action'', Val (JStr (fst (?ds ! 1)))),
         (js ''description'', d_description (snd (?ds ! 1))),
         (js ''parameters'', d_parameters (snd (?ds ! 1))),
         (js ''examples'', d_examples (snd (?ds ! 1)))])"
    by (rule spec)
  then have g5: "cell_at (snd ?g) 9 =
       Some (ObjectCell [(js ''action'', Val (JStr (js ''a''))),
                         (js ''description'', Val (JStr (js ''Alpha''))),
                         (js ''parameters'', Ref 1),
                         (js ''examples'', Ref 2)])"
    by (simp add: g3 5) (simp add: example_store_cells)
  from t have "\<forall>k<length ?ds. cell_at (snd ?l) (Suc (fst ?l) + k) =
      Some (ObjectCell
        [(js ''name'', Val (JStr (fst (?ds ! k)))),
         (js ''description'', d_description (snd (?ds ! k)))])"
    by blast
  then have "1 < length ?ds \<longrightarrow> cell_at (snd ?l) (Suc (fst ?l) + 1) =
      Some (ObjectCell
        [(js ''name'', Val (JStr (fst (?ds ! 1)))),
         (js ''description'', d_description (snd (?ds ! 1)))])"
    by (rule spec)
  then have l5: "cell_at (snd ?l) 9 =
       Some (ObjectCell [(js ''name'', Val (JStr (js ''a''))),
                         (js ''description'', Val (JStr (js ''Alpha'')))])"
    by (simp add: l3 5) (simp add: example_store_cells)
  from example_registry example_registry_at 3 4 l1 g1 l2 g2 l3 g3 l4 g4 l5 g5 5
  show ?thesis by (simp only: simp_thms)
qed

text \<open>
  C9 as stated says that mutating what the two functions return does not affect the state
  of the registry. It does through the records of \<^verbatim>\<open>getAvailableActions()\<close>: in the example
  the record of \<^verbatim>\<open>a\<close> (address 9) holds the reference to the parameters object of the
  descriptor (address 1, the object that was handed to \<^verbatim>\<open>register\<close>). Before the write the
  registry is the one the registrations made; after
  \<^verbatim>\<open>actions[1].parameters.injected = 1\<close>, a write to the cell at address 1, the parameters
  that the registry holds for \<^verbatim>\<open>a\<close> have the new member.
\<close>

theorem listings_fresh_records_counterexample:
  "fst (getAvailableActions_in 0 example_store) = 7
   \<and> cell_at (snd (getAvailableActions_in 0 example_store)) 9 =
       Some (ObjectCell [(js ''action'', Val (JStr (js ''a''))),
                         (js ''description'', Val (JStr (js ''Alpha''))),
                         (js ''parameters'', Ref 1),
                         (js ''examples'', Ref 2)])
   \<and> registry_at (snd (getAvailableActions_in 0 example_store)) 0
       = Some (snd (register_all example_registrations []))
   \<and> map_option (map (\<lambda>e. parameters (snd e)))
         (registry_at (snd (getAvailableActions_in 0 example_store)) 0)
       = Some [JObj [], JObj [(js ''to'', JStr (js ''string''))]]
   \<and> map_option (map (\<lambda>e. parameters (snd e)))
         (registry_at
            ((snd (getAvailableActions_in 0 example_store))
               [1 := ValueCell (JObj [(js ''to'', JStr (js ''string'')),
                                      (js ''injected'', JNum (Finite 1))])]) 0)
       = Some [JObj [], JObj [(js ''to'', JStr (js ''string'')),
                              (js ''injected'', JNum (Finite 1))]]
   \<and> registry_at
         ((snd (getAvailableActions_in 0 example_store))
            [1 := ValueCell (JObj [(js ''to'', JStr (js ''string'')),
                                   (js ''injected'', JNum (Finite 1))])]) 0
       \<noteq> Some (snd (register_all example_registrations []))"
  unfolding example_store_cells
  by (simp add: getAvailableActions_in_def collect_def alloc_def push_def
        available_literal_def registry_at_def descriptors_at_def descriptor_at_def
        entry_of_def config_of_def cell_at_def example_registrations_def register_def
        Map_has_def js_def no_metadata_def or_else_def)

section \<open>Properties of parseJSON\<close>

lemma typeof_object_cases:
  "typeof v = js ''object'' \<longleftrightarrow> (v = JNull \<or> (\<exists>xs. v = JArr xs) \<or> (\<exists>kvs. v = JObj kvs))"
  by (cases v) (simp_all add: js_def)

lemma typeof_string_cases: "typeof v = js ''string'' \<longleftrightarrow> (\<exists>s. v = JStr s)"
  by (cases v) (simp_all add: js_def)

lemma indexOf_from_absent: "c \<notin> set s \<Longrightarrow> indexOf_from s c k = - 1"
  by (induction s arbitrary: k) auto

lemma indexOf_from_present:
  "i < length s \<Longrightarrow> s ! i = c \<Longrightarrow> \<forall>j<i. s ! j \<noteq> c \<Longrightarrow> indexOf_from s c k = k + int i"
proof (induction s arbitrary: i k)
  case Nil
  then show ?case by simp
next
  case (Cons x xs)
  show ?case
  proof (cases i)
    case 0
    with Cons.prems show ?thesis by simp
  next
    case (Suc n)
    with Cons.prems have "x \<noteq> c" by auto
    moreover from Cons.prems Suc have "n < length xs" "xs ! n = c" "\<forall>j<n. xs ! j \<noteq> c"
      by auto
    ultimately show ?thesis using Cons.IH [of n "k + 1"] Suc by simp
  qed
qed

lemma spec_first_index_Some:
  "spec_first_index s c = Some i \<longleftrightarrow> i < length s \<and> s ! i = c \<and> (\<forall>j<i. s ! j \<noteq> c)"
  unfolding spec_first_index_def find_Some_iff by auto

lemma spec_first_index_None: "spec_first_index s c = None \<longleftrightarrow> c \<notin> set s"
  unfolding spec_first_index_def find_None_iff by (auto simp: in_set_conv_nth)

lemma indexOf_first_index:
  "indexOf s c = (case spec_first_index s c of None \<Rightarrow> - 1 | Some i \<Rightarrow> int i)"
proof (cases "spec_first_index s c")
  case None
  then have "c \<notin> set s" by (simp add: spec_first_index_None)
  with None show ?thesis by (simp add: indexOf_def indexOf_from_absent)
next
  case (Some i)
  then have "i < length s" "s ! i = c" "\<forall>j<i. s ! j \<noteq> c"
    by (simp_all add: spec_first_index_Some)
  then have "indexOf_from s c 0 = int i"
    using indexOf_from_present [of i s c 0] by simp
  with Some show ?thesis by (simp add: indexOf_def)
qed

lemma substring_step:
  assumes "start \<le> i" "i < length s"
  shows "substring s start (Suc i) = substring s start i @ [s ! i]"
proof -
  from assms have "i - start < length (drop start s)" by simp
  then have "take (Suc (i - start)) (drop start s)
               = take (i - start) (drop start s) @ [drop start s ! (i - start)]"
    by (rule take_Suc_conv_app_nth)
  moreover from assms have "drop start s ! (i - start) = s ! i" by simp
  moreover from assms have "Suc i - start = Suc (i - start)" by simp
  ultimately show ?thesis by (simp add: substring_def)
qed

lemma spec_depth_start: "spec_depth s opening closing start start = 0"
  by (simp add: spec_depth_def substring_def)

lemma spec_depth_step:
  assumes "start \<le> i" "i < length s"
  shows "spec_depth s opening closing start (i + 1) =
           (let depth1 = (if s ! i = opening then spec_depth s opening closing start i + 1
                          else spec_depth s opening closing start i)
            in if s ! i = closing then depth1 - 1 else depth1)"
  using assms by (simp add: spec_depth_def substring_step Let_def)

lemma balance_loop_find:
  assumes "start \<le> i" "depth = spec_depth s opening closing start i"
  shows "balance_loop s opening closing start i depth =
           map_option (\<lambda>e. JSON_parse (substring s start (e + 1)))
             (find (\<lambda>j. spec_depth s opening closing start (j + 1) = 0) [i..<length s])"
  using assms
proof (induction s "opening" "closing" start i depth rule: balance_loop.induct)
  case (1 cleaned ob cb start i depth)
  show ?case
  proof (cases "i < length cleaned")
    case False
    then show ?thesis by (simp add: balance_loop.simps)
  next
    case True
    let ?d1 = "if cleaned ! i = ob then depth + 1 else depth"
    let ?d2 = "if cleaned ! i = cb then ?d1 - 1 else ?d1"
    let ?next = "spec_depth cleaned ob cb start (i + 1)"
    have d2: "?d2 = ?next"
      using spec_depth_step [OF "1.prems"(1) True, of ob cb] "1.prems"(2)
      by (simp add: Let_def)
    have unfold: "balance_loop cleaned ob cb start i depth =
                    (if ?d2 = 0 then Some (JSON_parse (substring cleaned start (i + 1)))
                     else balance_loop cleaned ob cb start (i + 1) ?d2)"
      by (subst balance_loop.simps) (simp only: True if_True Let_def)
    from True have upt: "[i..<length cleaned] = i # [i + 1..<length cleaned]"
      by (simp add: upt_conv_Cons)
    show ?thesis
    proof (cases "?next = 0")
      case zero: True
      have "balance_loop cleaned ob cb start i depth =
              Some (JSON_parse (substring cleaned start (i + 1)))"
        unfolding unfold d2 using zero by simp
      moreover have "find (\<lambda>j. spec_depth cleaned ob cb start (j + 1) = 0)
                       [i..<length cleaned] = Some i"
        unfolding upt using zero by simp
      ultimately show ?thesis by simp
    next
      case nonzero: False
      from nonzero d2 have nz: "?d2 \<noteq> 0" by simp
      from "1.prems" have le: "start \<le> i + 1" by simp
      have ih: "balance_loop cleaned ob cb start (i + 1) ?d2 =
              map_option (\<lambda>e. JSON_parse (substring cleaned start (e + 1)))
                (find (\<lambda>j. spec_depth cleaned ob cb start (j + 1) = 0)
                   [i + 1..<length cleaned])"
        using "1.IH" [OF True refl refl nz le d2] .
      have "balance_loop cleaned ob cb start i depth =
              balance_loop cleaned ob cb start (i + 1) ?d2"
        unfolding unfold using nz by (simp only: if_False)
      moreover have "find (\<lambda>j. spec_depth cleaned ob cb start (j + 1) = 0)
                       [i..<length cleaned]
                     = find (\<lambda>j. spec_depth cleaned ob cb start (j + 1) = 0)
                       [i + 1..<length cleaned]"
        unfolding upt using nonzero by simp
      ultimately show ?thesis using ih by simp
    qed
  qed
qed

lemma balance_loop_balanced_end:
  "balance_loop s opening closing start start 0 =
     map_option (\<lambda>e. JSON_parse (substring s start (e + 1)))
       (spec_balanced_end s opening closing start)"
  using balance_loop_find [of start start 0 s "opening" "closing"]
  by (simp add: spec_depth_start spec_balanced_end_def)

text \<open>
  \<open>spec_balanced_end\<close> is the end of the minimal balanced substring: the depth is zero after it
  and at no index before it; it is \<open>None\<close> exactly when the depth is zero nowhere.
\<close>

lemma spec_balanced_end_Some:
  "spec_balanced_end s ob cb start = Some e \<longleftrightarrow>
     start \<le> e \<and> e < length s \<and> spec_depth s ob cb start (e + 1) = 0
     \<and> (\<forall>j. start \<le> j \<and> j < e \<longrightarrow> spec_depth s ob cb start (j + 1) \<noteq> 0)"
proof
  assume "spec_balanced_end s ob cb start = Some e"
  then obtain i where i: "i < length [start..<length s]"
    and z: "spec_depth s ob cb start ([start..<length s] ! i + 1) = 0"
    and e: "e = [start..<length s] ! i"
    and m: "\<forall>j<i. spec_depth s ob cb start ([start..<length s] ! j + 1) \<noteq> 0"
    unfolding spec_balanced_end_def find_Some_iff by blast
  from i have ei: "e = start + i" and il: "start + i < length s" using e by simp_all
  have "\<forall>j. start \<le> j \<and> j < e \<longrightarrow> spec_depth s ob cb start (j + 1) \<noteq> 0"
  proof (intro allI impI)
    fix j assume j: "start \<le> j \<and> j < e"
    then have "j - start < i" using ei by linarith
    with m have "spec_depth s ob cb start ([start..<length s] ! (j - start) + 1) \<noteq> 0"
      by blast
    moreover from j ei il have "[start..<length s] ! (j - start) = j" by simp
    ultimately show "spec_depth s ob cb start (j + 1) \<noteq> 0" by simp
  qed
  with z e ei il show "start \<le> e \<and> e < length s \<and> spec_depth s ob cb start (e + 1) = 0
     \<and> (\<forall>j. start \<le> j \<and> j < e \<longrightarrow> spec_depth s ob cb start (j + 1) \<noteq> 0)"
    by simp
next
  assume a: "start \<le> e \<and> e < length s \<and> spec_depth s ob cb start (e + 1) = 0
     \<and> (\<forall>j. start \<le> j \<and> j < e \<longrightarrow> spec_depth s ob cb start (j + 1) \<noteq> 0)"
  then have se: "start \<le> e" and el: "e < length s"
    and z: "spec_depth s ob cb start (e + 1) = 0"
    and m: "\<And>j. start \<le> j \<Longrightarrow> j < e \<Longrightarrow> spec_depth s ob cb start (j + 1) \<noteq> 0"
    by blast+
  let ?i = "e - start"
  from se el have 1: "?i < length [start..<length s]" by (simp add: diff_less_mono)
  from se el have 2: "[start..<length s] ! ?i = e" by simp
  have 3: "\<forall>j<?i. spec_depth s ob cb start ([start..<length s] ! j + 1) \<noteq> 0"
  proof (intro allI impI)
    fix j assume j: "j < ?i"
    with se el have n: "[start..<length s] ! j = start + j" by simp
    from j have "start + j < e" by linarith
    with m [of "start + j"] n show "spec_depth s ob cb start ([start..<length s] ! j + 1) \<noteq> 0"
      by simp
  qed
  from 1 2 3 z show "spec_balanced_end s ob cb start = Some e"
    unfolding spec_balanced_end_def find_Some_iff
    by (intro exI [of _ ?i]) simp
qed

lemma spec_balanced_end_None:
  "spec_balanced_end s ob cb start = None \<longleftrightarrow>
     (\<forall>j. start \<le> j \<and> j < length s \<longrightarrow> spec_depth s ob cb start (j + 1) \<noteq> 0)"
  unfolding spec_balanced_end_def find_None_iff by auto

lemma JSON_parse_throws: "JSON_parse text = Inl e \<Longrightarrow> e = SyntaxError"
  by (auto simp: JSON_parse_def split: option.splits)

lemma balance_loop_throws:
  assumes "balance_loop s ob cb start start 0 = Some (Inl e)"
  shows "e = SyntaxError"
  using assms JSON_parse_throws by (auto simp: balance_loop_balanced_end)

lemma parseJSON_body_throws:
  assumes "parseJSON_body (JStr s) = Inl e"
  shows "e = SyntaxError"
proof -
  from assms have "JSON_parse (clean s) = Inl e
      \<or> array_branch (clean s) (indexOf (clean s) 0x5B) = Some (Inl e)
      \<or> object_branch (clean s) (indexOf (clean s) 0x7B) = Some (Inl e)"
    by (auto simp: parseJSON_body_def js_def Let_def scan_brackets_def
          split: if_splits option.splits)
  then show ?thesis
    using JSON_parse_throws balance_loop_throws
    by (auto simp: array_branch_def object_branch_def)
qed

text \<open>
  C2 (as amended). An input that is not a string is returned unchanged exactly when
  \<^verbatim>\<open>typeof\<close> calls it an object, that is when it is a mapping, a sequence or \<^verbatim>\<open>null\<close>.
  A number, a boolean or \<^verbatim>\<open>undefined\<close> has no \<^verbatim>\<open>replace\<close> method: the call throws inside
  the \<^verbatim>\<open>try\<close> and the result is the failure sentinel.
\<close>

theorem parseJSON_passthrough:
  assumes "typeof response \<noteq> js ''string''"
  shows "fst (parseJSON debug response) =
           (if typeof response = js ''object'' then Inr response else Inr failure_sentinel)"
  using assms by (cases response) (simp_all add: parseJSON_def parseJSON_body_def js_def)

theorem parseJSON_passthrough_witness:
  "typeof (JObj [(js ''a'', JNum (Finite 1))]) \<noteq> js ''string''
   \<and> fst (parseJSON False (JObj [(js ''a'', JNum (Finite 1))]))
       = Inr (JObj [(js ''a'', JNum (Finite 1))])"
  using parseJSON_passthrough [of "JObj [(js ''a'', JNum (Finite 1))]" False]
  by (simp add: js_def)

text \<open>C2 as stated fails for the number 42: the result is the sentinel, not 42.\<close>

theorem parseJSON_passthrough_counterexample:
  "fst (parseJSON False (JNum (Finite 42))) = Inr failure_sentinel
   \<and> fst (parseJSON False (JNum (Finite 42))) \<noteq> Inr (JNum (Finite 42))"
  by (simp add: parseJSON_def parseJSON_body_def js_def failure_sentinel_def)

text \<open>
  C3. For a string, \<open>parseJSON\<close> always returns and never throws. Whatever is thrown in the
  body of the \<^verbatim>\<open>try\<close> (for a string only \<^verbatim>\<open>JSON.parse\<close> throws, at any of its five call
  sites) gives the failure sentinel, a mapping whose single field \<^verbatim>\<open>error\<close> says that parsing
  failed; what the body returns is returned.
\<close>

theorem parseJSON_never_throws:
  "(\<exists>v. fst (parseJSON debug (JStr s)) = Inr v)
   \<and> (\<forall>e. parseJSON_body (JStr s) = Inl e \<longrightarrow>
          e = SyntaxError \<and> fst (parseJSON debug (JStr s)) = Inr failure_sentinel)
   \<and> (\<forall>v. parseJSON_body (JStr s) = Inr v \<longrightarrow> fst (parseJSON debug (JStr s)) = Inr v)
   \<and> failure_sentinel = JObj [(js ''error'', JStr (js ''Failed to parse response''))]"
  using parseJSON_body_throws [of s]
  by (cases "parseJSON_body (JStr s)") (simp_all add: parseJSON_def failure_sentinel_def)

theorem parseJSON_never_throws_witness:
  "parseJSON_body (JStr (js ''not json at all {'')) = Inl SyntaxError
   \<and> fst (parseJSON True (JStr (js ''not json at all {''))) = Inr failure_sentinel"
proof -
  have 1: "parseJSON_body (JStr (js ''not json at all {'')) = Inl SyntaxError" by code_simp
  from parseJSON_never_throws [of True "js ''not json at all {''"] 1 show ?thesis by blast
qed

text \<open>
  C1 (as amended). Let the cleaned text neither start with \<^verbatim>\<open>{\<close> and end with \<^verbatim>\<open>}\<close> nor
  start with \<^verbatim>\<open>[\<close> and end with \<^verbatim>\<open>]\<close>, and let it hold a \<^verbatim>\<open>{\<close> or a \<^verbatim>\<open>[\<close>; the bracket
  chosen is the one that occurs first. When the depth counted from that bracket returns to
  zero, the body of \<open>parseJSON\<close> is \<^verbatim>\<open>JSON.parse\<close> of exactly the substring from the bracket
  to the first such position; when it never does, it is \<^verbatim>\<open>JSON.parse\<close> of the whole cleaned
  text. \<open>parseJSON\<close> returns the value parsed, or the failure sentinel when that parse throws.
\<close>

theorem parse_balanced_substring:
  assumes "cleaned = clean s"
    and "\<not> matches_enclosed 0x7B 0x7D cleaned"
    and "\<not> matches_enclosed 0x5B 0x5D cleaned"
    and "spec_chosen_bracket cleaned = Some (ob, cb, start)"
  shows "parseJSON_body (JStr s) =
           (case spec_balanced_end cleaned ob cb start of
              Some e \<Rightarrow> JSON_parse (substring cleaned start (e + 1))
            | None \<Rightarrow> JSON_parse cleaned)
       \<and> fst (parseJSON debug (JStr s)) =
           (case parseJSON_body (JStr s) of
              Inr v \<Rightarrow> Inr v
            | Inl e \<Rightarrow> Inr failure_sentinel)"
proof -
  have wrapper: "fst (parseJSON debug (JStr s)) =
           (case parseJSON_body (JStr s) of
              Inr v \<Rightarrow> Inr v
            | Inl e \<Rightarrow> Inr failure_sentinel)"
    by (simp add: parseJSON_def split: sum.splits)
  have body: "parseJSON_body (JStr s) = scan_brackets cleaned"
    using assms(1-3) by (simp add: parseJSON_body_def js_def Let_def)
  show ?thesis
  proof (cases "spec_first_index cleaned 0x7B")
    case None
    note no_object = this
    show ?thesis
    proof (cases "spec_first_index cleaned 0x5B")
      case None
      with no_object assms(4) show ?thesis by (simp add: spec_chosen_bracket_def)
    next
      case (Some ar)
      with no_object assms(4) have "ob = 0x5B" "cb = 0x5D" "start = ar"
        by (simp_all add: spec_chosen_bracket_def)
      with no_object Some show ?thesis
        unfolding body using wrapper [unfolded body]
        by (simp add: scan_brackets_def indexOf_first_index array_branch_def
              balance_loop_balanced_end split: option.splits)
    qed
  next
    case (Some obj)
    note an_object = this
    show ?thesis
    proof (cases "spec_first_index cleaned 0x5B")
      case None
      with an_object assms(4) have "ob = 0x7B" "cb = 0x7D" "start = obj"
        by (simp_all add: spec_chosen_bracket_def)
      with an_object None show ?thesis
        unfolding body using wrapper [unfolded body]
        by (simp add: scan_brackets_def indexOf_first_index object_branch_def
              balance_loop_balanced_end split: option.splits)
    next
      case (Some ar)
      show ?thesis
      proof (cases "ar < obj")
        case True
        with an_object Some assms(4) have "ob = 0x5B" "cb = 0x5D" "start = ar"
          by (simp_all add: spec_chosen_bracket_def)
        with an_object Some True show ?thesis
          unfolding body using wrapper [unfolded body]
          by (simp add: scan_brackets_def indexOf_first_index array_branch_def
                balance_loop_balanced_end split: option.splits)
      next
        case False
        with an_object Some assms(4) have "ob = 0x7B" "cb = 0x7D" "start = obj"
          by (simp_all add: spec_chosen_bracket_def)
        with an_object Some False show ?thesis
          unfolding body using wrapper [unfolded body]
          by (simp add: scan_brackets_def indexOf_first_index object_branch_def
                balance_loop_balanced_end split: option.splits)
      qed
    qed
  qed
qed

theorem parse_balanced_substring_witness:
  "spec_chosen_bracket (clean (js ''Sure, here you go: {\"x\": 5} Hope that helps!''))
     = Some (0x7B, 0x7D, 19)
   \<and> spec_balanced_end (clean (js ''Sure, here you go: {\"x\": 5} Hope that helps!'')) 0x7B 0x7D 19
     = Some 26
   \<and> parseJSON_body (JStr (js ''Sure, here you go: {\"x\": 5} Hope that helps!''))
     = Inr (JObj [(js ''x'', JNum (Finite 5))])"
proof -
  let ?s = "js ''Sure, here you go: {\"x\": 5} Hope that helps!''"
  have 1: "\<not> matches_enclosed 0x7B 0x7D (clean ?s)" by code_simp
  have 2: "\<not> matches_enclosed 0x5B 0x5D (clean ?s)" by code_simp
  have 3: "spec_chosen_bracket (clean ?s) = Some (0x7B, 0x7D, 19)" by code_simp
  have 4: "spec_balanced_end (clean ?s) 0x7B 0x7D 19 = Some 26" by code_simp
  have 5: "JSON_parse (substring (clean ?s) 19 (26 + 1)) = Inr (JObj [(js ''x'', JNum (Finite 5))])"
    by code_simp
  from parse_balanced_substring [OF refl 1 2 3] 3 4 5 show ?thesis by simp
qed

text \<open>
  C1 as stated fails in two ways. For \<^verbatim>\<open>not json at all {\<close> the text holds a \<^verbatim>\<open>{\<close>, the
  depth never returns to zero, there is no balanced substring, and the result is the
  failure sentinel. For \<^verbatim>\<open>{"a":1} trailing }\<close> the cleaned text is not one JSON object
  (\<^verbatim>\<open>JSON.parse\<close> of it throws), it holds a \<^verbatim>\<open>{\<close>, and the minimal balanced substring from
  the first \<^verbatim>\<open>{\<close> is \<^verbatim>\<open>{"a":1}\<close>, which parses; but the text starts with \<^verbatim>\<open>{\<close> and ends
  with \<^verbatim>\<open>}\<close>, the first pattern matches, the whole text is parsed and the result is the
  failure sentinel: the scan is reached only when neither pattern matches.
\<close>

theorem parse_balanced_substring_counterexample:
  "\<not> matches_enclosed 0x7B 0x7D (clean (js ''not json at all {''))
   \<and> \<not> matches_enclosed 0x5B 0x5D (clean (js ''not json at all {''))
   \<and> spec_chosen_bracket (clean (js ''not json at all {'')) = Some (0x7B, 0x7D, 16)
   \<and> spec_balanced_end (clean (js ''not json at all {'')) 0x7B 0x7D 16 = None
   \<and> parseJSON False (JStr (js ''not json at all {'')) = (Inr failure_sentinel, [])
   \<and> clean (js ''{\"a\":1} trailing }'') = js ''{\"a\":1} trailing }''
   \<and> JSON_parse (clean (js ''{\"a\":1} trailing }'')) = Inl SyntaxError
   \<and> matches_enclosed 0x7B 0x7D (clean (js ''{\"a\":1} trailing }''))
   \<and> spec_chosen_bracket (clean (js ''{\"a\":1} trailing }'')) = Some (0x7B, 0x7D, 0)
   \<and> spec_balanced_end (clean (js ''{\"a\":1} trailing }'')) 0x7B 0x7D 0 = Some 6
   \<and> JSON_parse (substring (clean (js ''{\"a\":1} trailing }'')) 0 (6 + 1))
       = Inr (JObj [(js ''a'', JNum (Finite 1))])
   \<and> parseJSON False (JStr (js ''{\"a\":1} trailing }'')) = (Inr failure_sentinel, [])"
  by code_simp

text \<open>
  C7. When the cleaned text holds both a \<^verbatim>\<open>{\<close> and a \<^verbatim>\<open>[\<close> and neither whole-string
  pattern matches, the branch taken is the one of the bracket whose first occurrence has
  the smaller index: the array branch, started at the first \<^verbatim>\<open>[\<close>, whenever that precedes the
  first \<^verbatim>\<open>{\<close>, and the object branch otherwise.
\<close>

theorem bracket_priority:
  assumes "cleaned = clean s"
    and "\<not> matches_enclosed 0x7B 0x7D cleaned"
    and "\<not> matches_enclosed 0x5B 0x5D cleaned"
    and "spec_first_index cleaned 0x5B = Some ar"
    and "spec_first_index cleaned 0x7B = Some ob"
  shows "parseJSON_body (JStr s) =
           (case (if ar < ob then array_branch cleaned (int ar)
                  else object_branch cleaned (int ob)) of
              Some r \<Rightarrow> r
            | None \<Rightarrow> JSON_parse cleaned)"
  using assms(2-5) unfolding assms(1)
  by (simp add: parseJSON_body_def js_def Let_def scan_brackets_def indexOf_first_index)

text \<open>
  The array branch is taken for a text whose payload is the object that follows: the
  result is the array \<^verbatim>\<open>[1]\<close>.
\<close>

theorem bracket_priority_witness:
  "spec_first_index (clean (js ''see [1] for details: {\"a\": 2}'')) 0x5B = Some 4
   \<and> spec_first_index (clean (js ''see [1] for details: {\"a\": 2}'')) 0x7B = Some 21
   \<and> parseJSON_body (JStr (js ''see [1] for details: {\"a\": 2}''))
       = Inr (JArr [JNum (Finite 1)])"
proof -
  let ?s = "js ''see [1] for details: {\"a\": 2}''"
  have 1: "\<not> matches_enclosed 0x7B 0x7D (clean ?s)" by code_simp
  have 2: "\<not> matches_enclosed 0x5B 0x5D (clean ?s)" by code_simp
  have 3: "spec_first_index (clean ?s) 0x5B = Some 4" by code_simp
  have 4: "spec_first_index (clean ?s) 0x7B = Some 21" by code_simp
  have 5: "array_branch (clean ?s) (int 4) = Some (Inr (JArr [JNum (Finite 1)]))"
    by code_simp
  from bracket_priority [OF refl 1 2 3 4] 3 4 5 show ?thesis by simp
qed

end
